theory Spec2Isabelle
  imports Main "HOL-Library.Word"
begin

unbundle bit_operations_syntax

section \<open>Data model\<close>

text \<open>
  The codecs of \<^verbatim>\<open>craystack/codecs.py\<close> work on numpy values of dtype uint64: a lane value
  is a 64-bit word, and a value is either a scalar (a Python int or a 0-d value) or a
  1-d array with one entry per lane.  Exceptions of the source are values of \<open>error\<close>.
\<close>

type_synonym u64 = "64 word"

datatype error = AssertionError | ValueError | IndexError | TypeError | PrimitiveError

datatype 'a nd = Scalar 'a | Array "'a list"

text \<open>
  numpy's broadcasting of a binary elementwise operation, for scalars and 1-d arrays:
  a scalar and an array of one element are stretched to the other operand's length, two
  arrays of different lengths (neither of length one) raise ValueError.
\<close>

fun broadcast2 :: "('a \<Rightarrow> 'b \<Rightarrow> 'c) \<Rightarrow> 'a nd \<Rightarrow> 'b nd \<Rightarrow> error + 'c nd" where
  "broadcast2 f (Scalar a) (Scalar b) = Inr (Scalar (f a b))"
| "broadcast2 f (Scalar a) (Array bs) = Inr (Array (map (f a) bs))"
| "broadcast2 f (Array as) (Scalar b) = Inr (Array (map (\<lambda>a. f a b) as))"
| "broadcast2 f (Array as) (Array bs) =
     (if length as = length bs then Inr (Array (map2 f as bs))
      else if length as = 1 then Inr (Array (map (f (hd as)) bs))
      else if length bs = 1 then Inr (Array (map (\<lambda>a. f a (hd bs)) as))
      else Inl ValueError)"

text \<open>\<^verbatim>\<open>np.all\<close> of a boolean value.\<close>

fun np_all :: "bool nd \<Rightarrow> bool" where
  "np_all (Scalar b) = b"
| "np_all (Array bs) = list_all (\<lambda>b. b) bs"

text \<open>
  A message is the pair (head, tail): the head is a 1-d array of uint64 lanes, the tail is
  owned by the rANS primitive and is opaque to the codecs.
\<close>

type_synonym 't message = "u64 list \<times> 't"

text \<open>
  The rANS primitive \<^verbatim>\<open>craystack.vectorans\<close> is an external collaborator of this module and is
  taken as a parameter: \<open>vpush message start freq precision\<close> returns the new message,
  \<open>vpop message precision\<close> returns the cumulative frequencies and the function
  \<open>finish start freq\<close>, which returns the next message, or \<open>None\<close> when the primitive
  fails (a message with too little information left).
\<close>

record 't vrans =
  vpush :: "'t message \<Rightarrow> u64 nd \<Rightarrow> u64 nd \<Rightarrow> u64 nd \<Rightarrow> 't message"
  vpop :: "'t message \<Rightarrow> u64 nd \<Rightarrow> u64 nd \<times> (u64 nd \<Rightarrow> u64 nd \<Rightarrow> 't message option)"

text \<open>
  A codec is a pair (push, pop); both may raise.
\<close>

record ('t, 's) codec =
  push :: "'t message \<Rightarrow> 's \<Rightarrow> error + 't message"
  pop :: "'t message \<Rightarrow> error + ('t message \<times> 's)"

section \<open>NonUniform\<close>

definition NonUniform_push ::
  "'t vrans \<Rightarrow> ('s \<Rightarrow> u64 nd \<times> u64 nd) \<Rightarrow> u64 nd \<Rightarrow> 't message \<Rightarrow> 's \<Rightarrow> error + 't message" where
  "NonUniform_push prim enc_statfun precision message symbol =
     (case enc_statfun symbol of (start, freq) \<Rightarrow>
        Inr (vpush prim message start freq precision))"

text \<open>
  The assertion \<^verbatim>\<open>np.all(start <= cf) and np.all(cf < start + freq)\<close>: the second conjunct
  is evaluated only when the first holds; a comparison of arrays that do not broadcast
  raises ValueError; uint64 addition wraps.
\<close>

definition interval_assertion :: "u64 nd \<Rightarrow> u64 nd \<Rightarrow> u64 nd \<Rightarrow> error + bool" where
  "interval_assertion start cf freq =
     (case broadcast2 (\<le>) start cf of
        Inl e \<Rightarrow> Inl e
      | Inr le \<Rightarrow>
          if \<not> np_all le then Inr False
          else (case broadcast2 (+) start freq of
                  Inl e \<Rightarrow> Inl e
                | Inr hi \<Rightarrow>
                    (case broadcast2 (<) cf hi of
                       Inl e \<Rightarrow> Inl e
                     | Inr lt \<Rightarrow> Inr (np_all lt))))"

definition NonUniform_pop ::
  "'t vrans \<Rightarrow> ('s \<Rightarrow> u64 nd \<times> u64 nd) \<Rightarrow> (u64 nd \<Rightarrow> 's) \<Rightarrow> u64 nd \<Rightarrow> 't message
     \<Rightarrow> error + ('t message \<times> 's)" where
  "NonUniform_pop prim enc_statfun dec_statfun precision message =
     (case vpop prim message precision of (cf, pop_fun) \<Rightarrow>
        let symbol = dec_statfun cf in
        (case enc_statfun symbol of (start, freq) \<Rightarrow>
           (case interval_assertion start cf freq of
              Inl e \<Rightarrow> Inl e
            | Inr ok \<Rightarrow>
                if \<not> ok then Inl AssertionError
                else (case pop_fun start freq of
                        None \<Rightarrow> Inl PrimitiveError
                      | Some message' \<Rightarrow> Inr (message', symbol)))))"

definition NonUniform ::
  "'t vrans \<Rightarrow> ('s \<Rightarrow> u64 nd \<times> u64 nd) \<Rightarrow> (u64 nd \<Rightarrow> 's) \<Rightarrow> u64 nd \<Rightarrow> ('t, 's) codec" where
  "NonUniform prim enc_statfun dec_statfun precision =
     \<lparr> push = NonUniform_push prim enc_statfun precision,
       pop = NonUniform_pop prim enc_statfun dec_statfun precision \<rparr>"

section \<open>repeat\<close>






section \<open>Uniform and Benford64\<close>

definition uniform_enc_statfun :: "u64 nd \<Rightarrow> u64 nd \<times> u64 nd" where
  "uniform_enc_statfun s = (s, Scalar 1)"

definition uniform_dec_statfun :: "u64 nd \<Rightarrow> u64 nd" where
  "uniform_dec_statfun cf = cf"

definition Uniform :: "'t vrans \<Rightarrow> u64 nd \<Rightarrow> ('t, u64 nd) codec" where
  "Uniform prim precision = NonUniform prim uniform_enc_statfun uniform_dec_statfun precision"

text \<open>Python's \<^verbatim>\<open>int.bit_length\<close>: the number of binary digits of a natural number.\<close>

fun bit_length :: "nat \<Rightarrow> nat" where
  "bit_length n = (if n = 0 then 0 else Suc (bit_length (n div 2)))"

declare bit_length.simps [simp del]

text \<open>
  \<^verbatim>\<open>np.log2\<close> of a uint64 array first converts every entry to float64.  The conversion rounds
  to 53 significant bits, to nearest, ties to even; the result is again an integer.
\<close>

definition float64_of_nat :: "nat \<Rightarrow> nat" where
  "float64_of_nat n =
     (let l = bit_length n in
      if l \<le> 53 then n
      else let sh = l - 53; q = n div 2 ^ sh; r = n mod 2 ^ sh; half = 2 ^ (sh - 1)
           in (if half < r \<or> (r = half \<and> odd q) then q + 1 else q) * 2 ^ sh)"

text \<open>
  \<^verbatim>\<open>np.uint64(np.log2(x))\<close> for one entry.  The entry converts to the float64 \<open>y\<close>, the
  logarithm is computed in float64 and the cast truncates it.  The float64 logarithm is
  modelled as correctly rounded: it is the float64 nearest to the real \<open>log2 y\<close>.  With \<open>k\<close>
  the position of the leading bit of \<open>y\<close>, the real logarithm lies in \<open>[k, k + 1)\<close>, so the
  result is \<open>k\<close> unless the logarithm rounds up to \<open>k + 1\<close>.  It rounds up exactly when
  \<open>log2 y > k + 1 - h\<close>, where \<open>h = 2^-e\<close> is half the distance from \<open>k + 1\<close> to the float64
  below it (\<open>e = 54 - bit_length k\<close>: 48 for \<open>32 \<le> k \<le> 63\<close>), that is when
  \<open>d = 2^(k+1) - y\<close> satisfies \<open>d / 2^(k+1) < 1 - 2^-h = h ln 2 (1 - h ln 2 / 2 + ...)\<close>.
  For the integers \<open>y\<close> that a uint64 converts to, \<open>d 2^e / 2^(k+1)\<close> is a multiple of \<open>1/32\<close>,
  so the comparison with \<open>ln 2 = 0.6931471805...\<close> is decided by the six digits used here.
  Just below a power of two the logarithm therefore rounds up: \<open>2^49 - 1\<close> gives 49.
  For \<open>x = 0\<close> numpy computes \<^verbatim>\<open>-inf\<close> and the cast is platform-dependent; the model
  gives 0 there.
\<close>

definition np_log2_u64 :: "u64 \<Rightarrow> u64" where
  "np_log2_u64 x =
     (let y = float64_of_nat (unat x);
          k = bit_length y - 1;
          d = 2 ^ Suc k - y;
          e = 54 - bit_length k
      in of_nat (if 1000000 * d * 2 ^ e < 693147 * 2 ^ Suc k then Suc k else k))"

text \<open>
  \<^verbatim>\<open>Benford64\<close>.  The elementwise expressions on the one array \<open>x\<close>
  (\<^verbatim>\<open>x & ((1 << x_len) - 1)\<close> with \<^verbatim>\<open>x_len\<close> computed from \<open>x\<close>) are maps over \<open>x\<close>;
  the expression of \<^verbatim>\<open>pop\<close> combines three decoded arrays and broadcasts.
\<close>

definition Benford64_push :: "'t vrans \<Rightarrow> 't message \<Rightarrow> u64 nd \<Rightarrow> error + 't message" where
  "Benford64_push prim message x =
     (case push (Uniform prim (Scalar 31)) message (map_nd (\<lambda>v. v AND (push_bit 31 1 - 1)) x) of
        Inl e \<Rightarrow> Inl e
      | Inr message1 \<Rightarrow>
          let x_len = map_nd np_log2_u64 x;
              x1 = map_nd (\<lambda>v. v AND (push_bit (unat (np_log2_u64 v)) 1 - 1)) x
          in (case push (Uniform prim (map_nd (\<lambda>l. l - 31) x_len)) message1
                     (map_nd (drop_bit 31) x1) of
                Inl e \<Rightarrow> Inl e
              | Inr message2 \<Rightarrow>
                  push (Uniform prim (Scalar 5)) message2 (map_nd (\<lambda>l. l - 31) x_len)))"

definition Benford64_pop :: "'t vrans \<Rightarrow> 't message \<Rightarrow> error + ('t message \<times> u64 nd)" where
  "Benford64_pop prim message =
     (case pop (Uniform prim (Scalar 5)) message of
        Inl e \<Rightarrow> Inl e
      | Inr (message1, x_len0) \<Rightarrow>
          let x_len = map_nd (\<lambda>l. l + 31) x_len0
          in (case pop (Uniform prim (map_nd (\<lambda>l. l - 31) x_len)) message1 of
                Inl e \<Rightarrow> Inl e
              | Inr (message2, x_higher) \<Rightarrow>
                  (case pop (Uniform prim (Scalar 31)) message2 of
                     Inl e \<Rightarrow> Inl e
                   | Inr (message3, x_lower) \<Rightarrow>
                       (case broadcast2 (OR) (map_nd (\<lambda>l. push_bit (unat l) 1) x_len)
                               (map_nd (push_bit 31) x_higher) of
                          Inl e \<Rightarrow> Inl e
                        | Inr hi \<Rightarrow>
                            (case broadcast2 (OR) hi x_lower of
                               Inl e \<Rightarrow> Inl e
                             | Inr x \<Rightarrow> Inr (message3, x))))))"

definition Benford64 :: "'t vrans \<Rightarrow> ('t, u64 nd) codec" where
  "Benford64 prim = \<lparr> push = Benford64_push prim, pop = Benford64_pop prim \<rparr>"

section \<open>substack\<close>

text \<open>
  Modelled from the spec: \<^verbatim>\<open>util.view_update\<close> is not among the source files.  The spec
  describes it as a view function paired with an update function: the view selects a
  sub-view of the head, and the update writes the (possibly resized) result of the inner
  codec back into the full head and nowhere else.  A view function is modelled by the
  lane positions it selects in a given head; the update writes the new values at those
  positions, in order.  A position outside the head raises IndexError.
\<close>

definition view_update ::
  "u64 list \<Rightarrow> (u64 list \<Rightarrow> nat list) \<Rightarrow> error + (u64 list \<times> (u64 list \<Rightarrow> u64 list))" where
  "view_update head view_fun =
     (let idxs = view_fun head in
      if list_all (\<lambda>i. i < length head) idxs
      then Inr (map (\<lambda>i. head ! i) idxs,
                \<lambda>subhead. fold (\<lambda>(i, v) h. h[i := v]) (zip idxs subhead) head)
      else Inl IndexError)"

definition substack_push ::
  "('t, 's) codec \<Rightarrow> (u64 list \<Rightarrow> nat list) \<Rightarrow> 't message \<Rightarrow> 's \<Rightarrow> error + 't message" where
  "substack_push c view_fun message data =
     (case message of (head, tail) \<Rightarrow>
        (case view_update head view_fun of
           Inl e \<Rightarrow> Inl e
         | Inr (subhead, update) \<Rightarrow>
             (case push c (subhead, tail) data of
                Inl e \<Rightarrow> Inl e
              | Inr (subhead1, tail1) \<Rightarrow> Inr (update subhead1, tail1))))"

definition substack_pop ::
  "('t, 's) codec \<Rightarrow> (u64 list \<Rightarrow> nat list) \<Rightarrow> 't message \<Rightarrow> error + ('t message \<times> 's)" where
  "substack_pop c view_fun message =
     (case message of (head, tail) \<Rightarrow>
        (case view_update head view_fun of
           Inl e \<Rightarrow> Inl e
         | Inr (subhead, update) \<Rightarrow>
             (case pop c (subhead, tail) of
                Inl e \<Rightarrow> Inl e
              | Inr ((subhead1, tail1), data) \<Rightarrow> Inr ((update subhead1, tail1), data))))"

definition substack :: "('t, 's) codec \<Rightarrow> (u64 list \<Rightarrow> nat list) \<Rightarrow> ('t, 's) codec" where
  "substack c view_fun = \<lparr> push = substack_push c view_fun, pop = substack_pop c view_fun \<rparr>"

section \<open>Folding and reshaping the head\<close>

text \<open>
  \<^verbatim>\<open>_fold_sizes\<close>: the loop may run forever (for example from \<open>small = 0\<close>), so the model
  is a partial function and \<open>None\<close> is a run that does not return.
\<close>

partial_function (option) fold_sizes_loop :: "int \<Rightarrow> int \<Rightarrow> int list \<Rightarrow> int list option" where
  "fold_sizes_loop small big sizes =
     (if small \<noteq> big
      then (let small1 = (if 2 * small \<le> big then 2 * small else big)
            in fold_sizes_loop small1 big (sizes @ [small1]))
      else Some sizes)"

definition fold_sizes :: "int \<Rightarrow> int \<Rightarrow> int list option" where
  "fold_sizes small big = fold_sizes_loop small big [small]"

text \<open>The view \<^verbatim>\<open>lambda head: head[:diff]\<close>, as the positions a Python slice selects.\<close>

definition slice_to :: "int \<Rightarrow> u64 list \<Rightarrow> nat list" where
  "slice_to diff head =
     (if 0 \<le> diff then [0..<min (nat diff) (length head)]
      else [0..<length head - nat (- diff)])"

definition fold_codec :: "'t vrans \<Rightarrow> int \<Rightarrow> ('t, u64 nd) codec" where
  "fold_codec prim diff = substack (Benford64 prim) (slice_to diff)"

definition fold_codecs :: "'t vrans \<Rightarrow> int list \<Rightarrow> ('t, u64 nd) codec list" where
  "fold_codecs prim sizes = map (fold_codec prim) (map2 (-) (tl sizes) (butlast sizes))"

text \<open>
  The loop of the shrinking branch:
  \<^verbatim>\<open>head, tail = push((head[:new_size], tail), head[new_size:])\<close>.
  Sizes here are non-negative, so the slices are \<open>take\<close> and \<open>drop\<close>.
\<close>

fun shrink_loop :: "(('t, u64 nd) codec \<times> int) list \<Rightarrow> 't message \<Rightarrow> error + 't message" where
  "shrink_loop [] message = Inr message"
| "shrink_loop ((c, new_size) # rest) (head, tail) =
     (case push c (take (nat new_size) head, tail) (Array (drop (nat new_size) head)) of
        Inl e \<Rightarrow> Inl e
      | Inr message1 \<Rightarrow> shrink_loop rest message1)"

text \<open>
  The loop of the growing branch:
  \<^verbatim>\<open>(head, tail), head_ex = pop((head, tail)); head = np.concatenate([head, head_ex])\<close>.
  \<^verbatim>\<open>np.concatenate\<close> raises ValueError on a zero-dimensional value.
\<close>

fun grow_loop :: "('t, u64 nd) codec list \<Rightarrow> 't message \<Rightarrow> error + 't message" where
  "grow_loop [] message = Inr message"
| "grow_loop (c # rest) message =
     (case pop c message of
        Inl e \<Rightarrow> Inl e
      | Inr ((head, tail), head_ex) \<Rightarrow>
          (case head_ex of
             Scalar _ \<Rightarrow> Inl ValueError
           | Array ex \<Rightarrow> grow_loop rest (head @ ex, tail)))"

definition resize_head_1d :: "'t vrans \<Rightarrow> 't message \<Rightarrow> int \<Rightarrow> (error + 't message) option" where
  "resize_head_1d prim message sz =
     (case message of (head, tail) \<Rightarrow>
        (case fold_sizes (min sz (int (length head))) (max sz (int (length head))) of
           None \<Rightarrow> None
         | Some sizes \<Rightarrow>
             let codecs = fold_codecs prim sizes in
             if sz < int (length head)
             then Some (shrink_loop (rev (zip codecs (butlast sizes))) (head, tail))
             else if int (length head) < sz
             then Some (grow_loop codecs (head, tail))
             else Some (Inr (head, tail))))"


section \<open>Cumulative bucket tables\<close>

text \<open>
  \<^verbatim>\<open>_cumulative_buckets_from_probs\<close> for one probability vector (a 1-d array; on an n-d
  array numpy does the same along the last axis, vector by vector).  Its first line,
  \<^verbatim>\<open>np.rint(probs * (1 << precision)).astype('int64')\<close>, is floating point; the model
  starts from its result, the array \<open>rounded\<close> of dtype int64.  An int64 is a 64-bit word
  read as two's complement: sums wrap and comparisons are signed.  \<^verbatim>\<open>1 << precision\<close> is a
  Python int, which numpy takes as an int64 for \<open>precision \<le> 62\<close>.
\<close>

fun argmax_loop :: "64 word list \<Rightarrow> nat \<Rightarrow> nat \<Rightarrow> 64 word \<Rightarrow> nat" where
  "argmax_loop [] i best best_value = best"
| "argmax_loop (x # xs) i best best_value =
     (if word_sless best_value x then argmax_loop xs (Suc i) i x
      else argmax_loop xs (Suc i) best best_value)"

text \<open>\<^verbatim>\<open>np.argmax\<close>: the first position of the largest entry; ValueError on an empty array.\<close>

definition np_argmax :: "64 word list \<Rightarrow> error + nat" where
  "np_argmax xs = (case xs of [] \<Rightarrow> Inl ValueError | x # rest \<Rightarrow> Inr (argmax_loop rest 1 0 x))"

fun cumsum_from :: "64 word \<Rightarrow> 64 word list \<Rightarrow> 64 word list" where
  "cumsum_from acc [] = []"
| "cumsum_from acc (x # xs) = (acc + x) # cumsum_from (acc + x) xs"

definition np_cumsum :: "64 word list \<Rightarrow> 64 word list" where
  "np_cumsum xs = cumsum_from 0 xs"

text \<open>
  The last line concatenates a column of uint64 zeros with the int64 cumulative sums.
  numpy has no integer type that holds both, so \<^verbatim>\<open>np.concatenate\<close> promotes the two arrays
  to float64, and \<^verbatim>\<open>astype('uint64')\<close> converts the floats back.  An int64 becomes the
  float64 nearest to it (ties to even), which is again an integer; a non-negative one is
  at most \<open>2^63\<close> and converts to uint64 as it is.  For a negative float the conversion is
  undefined in C; numpy on x86-64 gives the two's complement, which the model takes.
\<close>

definition uint64_via_float64 :: "64 word \<Rightarrow> u64" where
  "uint64_via_float64 c =
     (if 0 \<le> sint c then of_nat (float64_of_nat (nat (sint c)))
      else - of_nat (float64_of_nat (nat (- sint c))))"

definition cumulative_buckets_from_probs :: "64 word list \<Rightarrow> nat \<Rightarrow> error + u64 list" where
  "cumulative_buckets_from_probs rounded precision =
     (let probs = map (\<lambda>x. if x = 0 then 1 else x) rounded in
      case np_argmax probs of
        Inl e \<Rightarrow> Inl e
      | Inr argmax_idx \<Rightarrow>
          let max_value = probs ! argmax_idx;
              diffs = push_bit precision 1 - sum_list probs
          in if word_sle (max_value + diffs) 0 then Inl AssertionError
             else let lowered_maxes = max_value + diffs;
                      probs1 = probs[argmax_idx := lowered_maxes]
                  in Inr (0 # map uint64_via_float64 (np_cumsum probs1)))"

section \<open>AutoRegressive\<close>

text \<open>
  The optional argument \<^verbatim>\<open>all_params\<close> of \<^verbatim>\<open>push\<close> can be any Python value; the model
  distinguishes \<^verbatim>\<open>None\<close>, a number, a Python sequence and a numpy array.
\<close>

datatype 'p py_arg = PyNone | PyNumber 'p | PySequence "'p list" | NdArray "'p list"

text \<open>
  \<^verbatim>\<open>not all_params\<close>: \<^verbatim>\<open>None\<close>, zero and an empty sequence are falsy; a numpy array of one
  element has the truth value of that element, an empty one is falsy, and one with
  more than one element raises ValueError (its truth value is ambiguous).
\<close>

fun py_not :: "('p::zero) py_arg \<Rightarrow> error + bool" where
  "py_not PyNone = Inr True"
| "py_not (PyNumber x) = Inr (x = 0)"
| "py_not (PySequence xs) = Inr (xs = [])"
| "py_not (NdArray xs) =
     (if 1 < length xs then Inl ValueError else Inr (xs = [] \<or> hd xs = 0))"

text \<open>\<^verbatim>\<open>all_params[idx]\<close>\<close>

fun py_index :: "'p py_arg \<Rightarrow> nat \<Rightarrow> error + 'p" where
  "py_index PyNone idx = Inl TypeError"
| "py_index (PyNumber x) idx = Inl TypeError"
| "py_index (PySequence xs) idx = (if idx < length xs then Inr (xs ! idx) else Inl IndexError)"
| "py_index (NdArray xs) idx = (if idx < length xs then Inr (xs ! idx) else Inl IndexError)"

text \<open>
  \<^verbatim>\<open>param_fn\<close> is called as \<^verbatim>\<open>param_fn(data)\<close> and as \<^verbatim>\<open>param_fn(data, all_params, idx)\<close>:
  its model takes the two optional arguments as an option.  Data is a 1-d uint64 array,
  an index is a position in it.
\<close>

type_synonym 'p param_fn = "u64 list \<Rightarrow> ('p list \<times> nat) option \<Rightarrow> 'p list"

fun AutoRegressive_push_loop ::
  "('p \<Rightarrow> nat \<Rightarrow> ('t, u64) codec) \<Rightarrow> u64 list \<Rightarrow> 'p py_arg \<Rightarrow> nat list \<Rightarrow> 't message
     \<Rightarrow> error + 't message" where
  "AutoRegressive_push_loop elem_codec data all_params [] message = Inr message"
| "AutoRegressive_push_loop elem_codec data all_params (idx # rest) message =
     (case py_index all_params idx of
        Inl e \<Rightarrow> Inl e
      | Inr elem_params \<Rightarrow>
          if idx < length data
          then (case push (elem_codec elem_params idx) message (data ! idx) of
                  Inl e \<Rightarrow> Inl e
                | Inr message1 \<Rightarrow>
                    AutoRegressive_push_loop elem_codec data all_params rest message1)
          else Inl IndexError)"

definition AutoRegressive_push ::
  "('p::zero) param_fn \<Rightarrow> nat list \<Rightarrow> ('p \<Rightarrow> nat \<Rightarrow> ('t, u64) codec) \<Rightarrow> 't message \<Rightarrow> u64 list
     \<Rightarrow> 'p py_arg \<Rightarrow> error + 't message" where
  "AutoRegressive_push param_fn elem_idxs elem_codec message data all_params =
     (case py_not all_params of
        Inl e \<Rightarrow> Inl e
      | Inr recompute \<Rightarrow>
          let all_params1 = (if recompute then NdArray (param_fn data None) else all_params)
          in AutoRegressive_push_loop elem_codec data all_params1 (rev elem_idxs) message)"

fun AutoRegressive_pop_loop ::
  "'p param_fn \<Rightarrow> ('p \<Rightarrow> nat \<Rightarrow> ('t, u64) codec) \<Rightarrow> nat list \<Rightarrow> 't message \<times> u64 list \<times> 'p list
     \<Rightarrow> error + ('t message \<times> u64 list)" where
  "AutoRegressive_pop_loop param_fn elem_codec [] (message, data, all_params) =
     Inr (message, data)"
| "AutoRegressive_pop_loop param_fn elem_codec (idx # rest) (message, data, all_params) =
     (let all_params1 = param_fn data (Some (all_params, idx)) in
      if idx < length all_params1
      then (case pop (elem_codec (all_params1 ! idx) idx) message of
              Inl e \<Rightarrow> Inl e
            | Inr (message1, elem) \<Rightarrow>
                if idx < length data
                then AutoRegressive_pop_loop param_fn elem_codec rest
                       (message1, data[idx := elem], all_params1)
                else Inl IndexError)
      else Inl IndexError)"

definition AutoRegressive_pop ::
  "('p::zero) param_fn \<Rightarrow> nat \<Rightarrow> nat \<Rightarrow> nat list \<Rightarrow> ('p \<Rightarrow> nat \<Rightarrow> ('t, u64) codec) \<Rightarrow> 't message
     \<Rightarrow> error + ('t message \<times> u64 list)" where
  "AutoRegressive_pop param_fn data_shape params_shape elem_idxs elem_codec message =
     AutoRegressive_pop_loop param_fn elem_codec elem_idxs
       (message, replicate data_shape 0, replicate params_shape 0)"

section \<open>Specification vocabulary\<close>

text \<open>
  Lane-wise reading of a value in a computation on \<open>n\<close> lanes: a scalar stands for the
  same entry on every lane, an array must have \<open>n\<close> entries.
\<close>

definition shaped :: "nat \<Rightarrow> 'a nd \<Rightarrow> bool" where
  "shaped n v = (case v of Scalar _ \<Rightarrow> True | Array xs \<Rightarrow> length xs = n)"

fun nd_at :: "'a nd \<Rightarrow> nat \<Rightarrow> 'a" where
  "nd_at (Scalar a) i = a"
| "nd_at (Array xs) i = xs ! i"

text \<open>
  \<open>start <= cf < start + freq\<close> on every lane, as the assertion of \<^verbatim>\<open>NonUniform\<close>
  computes it (on uint64).
\<close>

definition lanes_in_interval :: "nat \<Rightarrow> u64 nd \<Rightarrow> u64 nd \<Rightarrow> u64 nd \<Rightarrow> bool" where
  "lanes_in_interval n start cf freq \<longleftrightarrow>
     (\<forall>i<n. nd_at start i \<le> nd_at cf i \<and> nd_at cf i < nd_at start i + nd_at freq i)"

text \<open>
  The interval invariants of the spec, on \<open>n\<close> lanes, for precisions up to \<open>pmax\<close>:
  \<open>0 < freq\<close> and \<open>start + freq \<le> 2 ^ precision\<close> (as numbers, without wrap-around).
\<close>

definition interval_ok :: "nat \<Rightarrow> nat \<Rightarrow> u64 nd \<Rightarrow> u64 nd \<Rightarrow> u64 nd \<Rightarrow> bool" where
  "interval_ok pmax n start freq prec \<longleftrightarrow>
     shaped n start \<and> shaped n freq \<and> shaped n prec \<and>
     (\<forall>i<n. 0 < unat (nd_at freq i) \<and> unat (nd_at prec i) \<le> pmax \<and>
            unat (nd_at start i) + unat (nd_at freq i) \<le> 2 ^ unat (nd_at prec i))"

definition cf_in_interval :: "nat \<Rightarrow> u64 nd \<Rightarrow> u64 list \<Rightarrow> u64 nd \<Rightarrow> bool" where
  "cf_in_interval n start cfs freq \<longleftrightarrow>
     length cfs = n \<and>
     (\<forall>i<n. unat (nd_at start i) \<le> unat (cfs ! i) \<and>
            unat (cfs ! i) < unat (nd_at start i) + unat (nd_at freq i))"

text \<open>
  The contract of the rANS primitive (the LIFO discipline the spec requires of it), for
  precisions up to \<open>pmax\<close>: pushing a valid interval keeps the number of lanes, and popping
  right after yields one cumulative frequency per lane, each inside the pushed interval,
  and a \<open>finish\<close> that returns the message from before the push.
\<close>

definition lifo :: "nat \<Rightarrow> 't vrans \<Rightarrow> bool" where
  "lifo pmax prim \<longleftrightarrow>
     (\<forall>message start freq prec.
        interval_ok pmax (length (fst message)) start freq prec \<longrightarrow>
        length (fst (vpush prim message start freq prec)) = length (fst message) \<and>
        (case vpop prim (vpush prim message start freq prec) prec of
           (cf, finish) \<Rightarrow>
             (\<exists>cfs. cf = Array cfs \<and> cf_in_interval (length (fst message)) start cfs freq) \<and>
             finish start freq = Some message))"

text \<open>
  A reference primitive that satisfies the contract without compressing: the tail is a
  stack of the pushed interval starts, one array per push, and an empty tail is a message
  with no information left.
\<close>

definition stack_prim :: "(u64 list list) vrans" where
  "stack_prim =
     \<lparr> vpush = (\<lambda>message start freq prec.
          (fst message, map (nd_at start) [0..<length (fst message)] # snd message)),
       vpop = (\<lambda>message prec.
          (case snd message of
             [] \<Rightarrow> (Array (map (\<lambda>_. 0) (fst message)), \<lambda>_ _. None)
           | cfs # rest \<Rightarrow> (Array cfs, \<lambda>_ _. Some (fst message, rest)))) \<rparr>"

text \<open>
  A symbol is in the domain of \<^verbatim>\<open>NonUniform(enc_statfun, dec_statfun, precision)\<close> on \<open>n\<close>
  lanes when its interval satisfies the invariants and the decoding statfun maps every
  cumulative frequency inside the interval back to the symbol (the interval tables of push
  and pop agree).
\<close>

definition symbol_ok ::
  "nat \<Rightarrow> nat \<Rightarrow> ('s \<Rightarrow> u64 nd \<times> u64 nd) \<Rightarrow> (u64 nd \<Rightarrow> 's) \<Rightarrow> u64 nd \<Rightarrow> 's \<Rightarrow> bool" where
  "symbol_ok pmax n enc_statfun dec_statfun precision symbol \<longleftrightarrow>
     (case enc_statfun symbol of (start, freq) \<Rightarrow>
        interval_ok pmax n start freq precision \<and>
        (\<forall>cfs. cf_in_interval n start cfs freq \<longrightarrow> dec_statfun (Array cfs) = symbol))"

text \<open>
  A codec round-trips on the messages \<open>M\<close> and the symbols \<open>S\<close>: pushing stays inside \<open>M\<close>
  and popping right after returns the message and the symbol.
\<close>

definition roundtrips :: "('t, 's) codec \<Rightarrow> 't message set \<Rightarrow> 's set \<Rightarrow> bool" where
  "roundtrips c M S \<longleftrightarrow>
     (\<forall>m\<in>M. \<forall>s\<in>S. \<exists>m'\<in>M. push c m s = Inr m' \<and> pop c m' = Inr (m, s))"

text \<open>
  The folding schedule: each size is followed by the minimum of its double and \<open>big\<close>,
  and the sizes increase.
\<close>

fun doubling :: "int \<Rightarrow> int list \<Rightarrow> bool" where
  "doubling big (x # y # zs) \<longleftrightarrow> y = min (2 * x) big \<and> x < y \<and> doubling big (y # zs)"
| "doubling big xs \<longleftrightarrow> True"

text \<open>
  The frame of \<^verbatim>\<open>substack\<close>: the new head has the lanes of the old one, agrees with it
  outside the viewed positions, and holds the inner codec's result at the viewed
  positions (when these are distinct and the result has kept its size).
\<close>

definition frame_ok :: "u64 list \<Rightarrow> nat list \<Rightarrow> u64 list \<Rightarrow> u64 list \<Rightarrow> bool" where
  "frame_ok head idxs subhead1 head1 \<longleftrightarrow>
     length head1 = length head \<and>
     (\<forall>i<length head. i \<notin> set idxs \<longrightarrow> head1 ! i = head ! i) \<and>
     (distinct idxs \<and> length subhead1 = length idxs \<longrightarrow>
        (\<forall>k<length idxs. head1 ! (idxs ! k) = subhead1 ! k))"

text \<open>
  An autoregressive example: the parameter of element \<open>i\<close> is the sum of the elements
  before it (\<^verbatim>\<open>sum(data[0:i])\<close>), and the codec of an element shifts it by its parameter and
  codes the result uniformly at precision 8, on one lane.
\<close>

definition prefix_sum_params :: "u64 param_fn" where
  "prefix_sum_params data known = map (\<lambda>i. sum_list (take i data)) [0..<length data]"

definition shift_codec :: "'t vrans \<Rightarrow> u64 \<Rightarrow> nat \<Rightarrow> ('t, u64) codec" where
  "shift_codec prim p idx =
     NonUniform prim (\<lambda>s. (Array [s + p], Scalar 1)) (\<lambda>cf. nd_at cf 0 - p) (Scalar 8)"

text \<open>
  The per-lane expressions of \<^verbatim>\<open>Benford64\<close>: the three fields its push codes for a lane
  value \<open>v\<close> (the low 31 bits, the bits between bit 31 and the computed length, and the
  computed length minus 31), and the value its pop rebuilds from three decoded fields.
  \<open>log2_exact v\<close> says that \<^verbatim>\<open>np.uint64(np.log2(v))\<close> is the position of the leading bit of
  \<open>v\<close>, which is \<open>bit_length v - 1\<close>.
\<close>

definition benford_low :: "u64 \<Rightarrow> u64" where
  "benford_low v = v AND (push_bit 31 1 - 1)"

definition benford_high :: "u64 \<Rightarrow> u64" where
  "benford_high v = drop_bit 31 (v AND (push_bit (unat (np_log2_u64 v)) 1 - 1))"

definition benford_delta :: "u64 \<Rightarrow> u64" where
  "benford_delta v = np_log2_u64 v - 31"

definition log2_exact :: "u64 \<Rightarrow> bool" where
  "log2_exact v \<longleftrightarrow> unat (np_log2_u64 v) = bit_length (unat v) - 1"

definition benford_rebuild :: "u64 \<Rightarrow> u64 \<Rightarrow> u64 \<Rightarrow> u64" where
  "benford_rebuild delta high low = push_bit (unat (delta + 31)) 1 OR push_bit 31 high OR low"

text \<open>
  The buffers of an autoregressive decode of \<open>data\<close>. \<open>ar_data data idxs buf\<close> is the data
  buffer once the elements at \<open>idxs\<close> have been decoded into \<open>buf\<close>, in that order;
  \<open>ar_params\<close> is the running parameter buffer at that point. \<open>causal\<close> says that at every
  index the parameter that \<^verbatim>\<open>param_fn\<close> computes from these two buffers is the one that
  \<^verbatim>\<open>param_fn(data)\<close> gives to push: the parameter of an element depends only on the
  elements decoded before it.
\<close>

fun ar_data :: "u64 list \<Rightarrow> nat list \<Rightarrow> u64 list \<Rightarrow> u64 list" where
  "ar_data data [] buf = buf"
| "ar_data data (idx # rest) buf = ar_data data rest (buf[idx := data ! idx])"

fun ar_params :: "'p param_fn \<Rightarrow> u64 list \<Rightarrow> nat list \<Rightarrow> u64 list \<Rightarrow> 'p list \<Rightarrow> 'p list" where
  "ar_params param_fn data [] buf ps = ps"
| "ar_params param_fn data (idx # rest) buf ps =
     ar_params param_fn data rest (buf[idx := data ! idx]) (param_fn buf (Some (ps, idx)))"

fun causal :: "'p param_fn \<Rightarrow> u64 list \<Rightarrow> nat list \<Rightarrow> u64 list \<Rightarrow> 'p list \<Rightarrow> bool" where
  "causal param_fn data [] buf ps \<longleftrightarrow> True"
| "causal param_fn data (idx # rest) buf ps \<longleftrightarrow>
     idx < length (param_fn buf (Some (ps, idx))) \<and>
     idx < length (param_fn data None) \<and>
     param_fn buf (Some (ps, idx)) ! idx = param_fn data None ! idx \<and>
     causal param_fn data rest (buf[idx := data ! idx]) (param_fn buf (Some (ps, idx)))"



section \<open>NonUniform and repeat: assertion and round trip\<close>

lemma interval_assertion_lanes:
  assumes "shaped (length cfs) start" "shaped (length cfs) freq"
  shows "interval_assertion start (Array cfs) freq = Inr (lanes_in_interval (length cfs) start (Array cfs) freq)"
  using assms
  by (cases start; cases freq)
     (auto simp: interval_assertion_def lanes_in_interval_def shaped_def list_all_length)

text \<open>
  Claim C5.  \<^verbatim>\<open>NonUniform\<close>'s pop takes \<open>(cf, finish)\<close> from the primitive at the given
  precision, computes \<open>symbol = dec_statfun cf\<close> and \<open>(start, freq) = enc_statfun symbol\<close>,
  fails with the assertion exactly when \<open>start <= cf < start + freq\<close> does not hold on
  every lane, and otherwise returns \<open>(finish start freq, symbol)\<close> (the failure of the
  primitive's \<open>finish\<close>, if any, passes through).  The values are taken well-shaped:
  one cumulative frequency per lane, and \<open>start\<close> and \<open>freq\<close> scalars or one entry per
  lane.
\<close>

theorem NonUniform_pop_assertion:
  assumes "vpop prim message precision = (Array cfs, finish)"
    and "dec_statfun (Array cfs) = symbol"
    and "enc_statfun symbol = (start, freq)"
    and "shaped (length cfs) start" and "shaped (length cfs) freq"
  shows "(NonUniform_pop prim enc_statfun dec_statfun precision message = Inl AssertionError
            \<longleftrightarrow> \<not> lanes_in_interval (length cfs) start (Array cfs) freq) \<and>
         (lanes_in_interval (length cfs) start (Array cfs) freq \<longrightarrow>
            NonUniform_pop prim enc_statfun dec_statfun precision message =
              (case finish start freq of
                 None \<Rightarrow> Inl PrimitiveError
               | Some message' \<Rightarrow> Inr (message', symbol)))"
  using assms(1,2,3) interval_assertion_lanes[OF assms(4,5)]
  by (auto simp: NonUniform_pop_def split: option.splits)

theorem NonUniform_pop_assertion_witness:
  "NonUniform_pop stack_prim uniform_enc_statfun uniform_dec_statfun (Scalar 8)
       ([5, 6], [[3, 200]]) = Inr (([5, 6], []), Array [3, 200]) \<and>
   NonUniform_pop stack_prim (\<lambda>s. (Array [10, 10], Scalar 1)) uniform_dec_statfun (Scalar 8)
       ([5, 6], [[3, 200]]) = Inl AssertionError"
proof -
  let ?m = "([5, 6], [[3, 200]]) :: (u64 list list) message"
  have p: "vpop stack_prim ?m (Scalar 8) = (Array [3, 200], \<lambda>_ _. Some ([5, 6], []))"
    by (simp add: stack_prim_def)
  have d: "uniform_dec_statfun (Array [3, 200]) = Array [3, 200]"
    by (simp add: uniform_dec_statfun_def)
  have e: "uniform_enc_statfun (Array [3, 200]) = (Array [3, 200], Scalar 1)"
    by (simp add: uniform_enc_statfun_def)
  have sh: "shaped (length [3, 200 :: u64]) (Array [3, 200 :: u64])"
    "shaped (length [3, 200 :: u64]) (Scalar (1 :: u64))"
    "shaped (length [3, 200 :: u64]) (Array [10, 10 :: u64])"
    by (simp_all add: shaped_def)
  have in1: "lanes_in_interval (length [3, 200 :: u64]) (Array [3, 200]) (Array [3, 200]) (Scalar 1)"
    by (auto simp: lanes_in_interval_def less_Suc_eq)
  have in2: "\<not> lanes_in_interval (length [3, 200 :: u64]) (Array [10, 10]) (Array [3, 200]) (Scalar 1)"
    by (auto simp: lanes_in_interval_def less_Suc_eq)
  from NonUniform_pop_assertion[where dec_statfun = uniform_dec_statfun
      and enc_statfun = uniform_enc_statfun, OF p d e sh(1,2)] in1
  have "NonUniform_pop stack_prim uniform_enc_statfun uniform_dec_statfun (Scalar 8) ?m
          = Inr (([5, 6], []), Array [3, 200])"
    by simp
  moreover
  have e2: "(\<lambda>s. (Array [10, 10], Scalar 1)) (Array [3, 200 :: u64]) = (Array [10, 10 :: u64], Scalar (1 :: u64))"
    by simp
  from NonUniform_pop_assertion[where dec_statfun = uniform_dec_statfun
      and enc_statfun = "\<lambda>s. (Array [10, 10], Scalar 1)", OF p d e2 sh(3,2)] in2
  have "NonUniform_pop stack_prim (\<lambda>s. (Array [10, 10], Scalar 1)) uniform_dec_statfun (Scalar 8) ?m
          = Inl AssertionError"
    by simp
  ultimately show ?thesis by simp
qed

lemma lifo_stack_prim: "lifo pmax stack_prim"
  by (auto simp: lifo_def stack_prim_def cf_in_interval_def interval_ok_def)

lemma cf_in_interval_lanes:
  assumes "interval_ok pmax n start freq prec" "pmax < 64" "cf_in_interval n start cfs freq"
  shows "lanes_in_interval (length cfs) start (Array cfs) freq"
proof -
  have n: "length cfs = n" using assms(3) by (simp add: cf_in_interval_def)
  have "nd_at start i \<le> cfs ! i \<and> cfs ! i < nd_at start i + nd_at freq i" if "i < n" for i
  proof -
    from assms(1) that have p: "unat (nd_at prec i) \<le> pmax"
      and b: "unat (nd_at start i) + unat (nd_at freq i) \<le> 2 ^ unat (nd_at prec i)"
      by (auto simp: interval_ok_def)
    have "(2::nat) ^ unat (nd_at prec i) < 2 ^ 64"
      using p assms(2) by (intro power_strict_increasing) auto
    with b have nowrap: "unat (nd_at start i) + unat (nd_at freq i) < 2 ^ 64" by linarith
    then have "unat (nd_at start i + nd_at freq i) = unat (nd_at start i) + unat (nd_at freq i)"
      by (simp add: unat_add_lem[THEN iffD1])
    with assms(3) that show ?thesis
      by (simp add: cf_in_interval_def word_le_nat_alt word_less_nat_alt)
  qed
  then show ?thesis by (simp add: lanes_in_interval_def n)
qed

lemma NonUniform_roundtrips:
  assumes "lifo pmax prim" "pmax < 64"
  shows "roundtrips (NonUniform prim enc dec prec) {m. length (fst m) = n}
           {s. symbol_ok pmax n enc dec prec s}"
  unfolding roundtrips_def
proof (intro ballI)
  fix m :: "'a message" and s
  assume m: "m \<in> {m. length (fst m) = n}" and s: "s \<in> {s. symbol_ok pmax n enc dec prec s}"
  obtain start freq where e: "enc s = (start, freq)" by (cases "enc s")
  from s e have ok: "interval_ok pmax n start freq prec"
    and inv: "\<And>cfs. cf_in_interval n start cfs freq \<Longrightarrow> dec (Array cfs) = s"
    by (auto simp: symbol_ok_def)
  let ?m' = "vpush prim m start freq prec"
  obtain cf fin where p: "vpop prim ?m' prec = (cf, fin)" by (cases "vpop prim ?m' prec")
  from assms(1) ok m p obtain cfs where len: "length (fst ?m') = n"
    and cf: "cf = Array cfs" and ci: "cf_in_interval n start cfs freq"
    and fin: "fin start freq = Some m"
    unfolding lifo_def by fastforce
  have d: "dec cf = s" using inv[OF ci] cf by simp
  have n: "length cfs = n" using ci by (simp add: cf_in_interval_def)
  have sh: "shaped (length cfs) start" "shaped (length cfs) freq"
    using ok n by (auto simp: interval_ok_def)
  have "interval_assertion start cf freq = Inr True"
    using interval_assertion_lanes[OF sh] cf_in_interval_lanes[OF ok assms(2) ci] cf by simp
  then have "NonUniform_pop prim enc dec prec ?m' = Inr (m, s)"
    by (simp add: NonUniform_pop_def p d e fin)
  then show "\<exists>m'\<in>{m. length (fst m) = n}.
      push (NonUniform prim enc dec prec) m s = Inr m' \<and>
      pop (NonUniform prim enc dec prec) m' = Inr (m, s)"
    using len by (simp add: NonUniform_def NonUniform_push_def e)
qed




lemma symbol_ok_uniform:
  assumes "length xs = n" "shaped n prec"
    and "\<And>i. i < n \<Longrightarrow> unat (nd_at prec i) \<le> pmax \<and> unat (xs ! i) < 2 ^ unat (nd_at prec i)"
  shows "symbol_ok pmax n uniform_enc_statfun uniform_dec_statfun prec (Array xs)"
proof -
  have "cfs = xs" if "cf_in_interval n (Array xs) cfs (Scalar 1)" for cfs
  proof (rule nth_equalityI)
    show "length cfs = length xs" using that assms(1) by (simp add: cf_in_interval_def)
    fix i assume "i < length cfs"
    with that have "unat (xs ! i) \<le> unat (cfs ! i) \<and> unat (cfs ! i) < unat (xs ! i) + 1"
      by (simp add: cf_in_interval_def)
    then show "cfs ! i = xs ! i" by (simp add: word_unat_eq_iff)
  qed
  then show ?thesis
    using assms
    by (auto simp: symbol_ok_def uniform_enc_statfun_def uniform_dec_statfun_def interval_ok_def
        shaped_def Suc_le_eq)
qed



section \<open>The folding schedule\<close>

lemma fold_sizes_loop_returns:
  assumes "1 \<le> small" "small \<le> big"
  shows "\<exists>rest. fold_sizes_loop small big acc = Some (acc @ rest) \<and>
           last (small # rest) = big \<and> doubling big (small # rest)"
  using assms
proof (induction "nat (big - small)" arbitrary: small acc rule: less_induct)
  case less
  show ?case
  proof (cases "small = big")
    case True
    then show ?thesis by (subst fold_sizes_loop.simps) simp
  next
    case False
    define small1 where "small1 = (if 2 * small \<le> big then 2 * small else big)"
    have s1: "small < small1" "small1 \<le> big" "1 \<le> small1" "small1 = min (2 * small) big"
      using less.prems False by (auto simp: small1_def)
    then have "nat (big - small1) < nat (big - small)" using less.prems by linarith
    from less.hyps[OF this s1(3) s1(2), of "acc @ [small1]"]
    obtain rest where r: "fold_sizes_loop small1 big (acc @ [small1]) = Some ((acc @ [small1]) @ rest)"
      "last (small1 # rest) = big" "doubling big (small1 # rest)"
      by blast
    have "fold_sizes_loop small big acc = Some (acc @ small1 # rest)"
      using False r(1) by (subst fold_sizes_loop.simps) (simp add: small1_def)
    moreover have "last (small # small1 # rest) = big" using r(2) by simp
    moreover have "doubling big (small # small1 # rest)" using r(3) s1 by simp
    ultimately show ?thesis by blast
  qed
qed

lemma doubling_nth:
  "doubling big xs \<Longrightarrow> Suc i < length xs \<Longrightarrow> xs ! Suc i = min (2 * xs ! i) big \<and> xs ! i < xs ! Suc i"
proof (induction big xs arbitrary: i rule: doubling.induct)
  case (1 big x y zs)
  then show ?case by (cases i) auto
qed auto

lemma doubling_increasing: "doubling big xs \<Longrightarrow> sorted_wrt (<) xs"
proof (induction big xs rule: doubling.induct)
  case (1 big x y zs)
  from "1.prems"[unfolded doubling.simps]
  have xy: "x < y" and d: "doubling big (y # zs)" by blast+
  from "1.IH"[OF d] have s: "sorted_wrt (<) (y # zs)" .
  then have "\<forall>z\<in>set zs. x < z" using xy by auto
  with s xy show ?case by simp
qed auto

lemma fold_sizes_returns:
  assumes "1 \<le> small" "small \<le> big"
  shows "\<exists>sizes. fold_sizes small big = Some sizes \<and> sizes \<noteq> [] \<and>
           hd sizes = small \<and> last sizes = big \<and> doubling big sizes"
proof -
  from fold_sizes_loop_returns[OF assms, of "[small]"] obtain rest where
    r: "fold_sizes_loop small big [small] = Some (small # rest)"
    "last (small # rest) = big" "doubling big (small # rest)" by auto
  have "fold_sizes small big = Some (small # rest)" by (simp add: fold_sizes_def r(1))
  with r(2,3) show ?thesis by auto
qed

lemma resize_head_1d_returns:
  assumes "1 \<le> sz" "head \<noteq> []"
  shows "resize_head_1d prim (head, tail) sz \<noteq> None"
proof -
  have "1 \<le> min sz (int (length head))" "min sz (int (length head)) \<le> max sz (int (length head))"
    using assms by (cases head; simp)+
  from fold_sizes_returns[OF this] show ?thesis
    by (auto simp: resize_head_1d_def Let_def)
qed

text \<open>
  Claim C8.  For all integers \<open>1 \<le> small \<le> big\<close>, \<^verbatim>\<open>_fold_sizes(small, big)\<close> returns: its
  result starts with \<open>small\<close>, every next element is the minimum of twice the previous one
  and \<open>big\<close>, the last element is \<open>big\<close>, and the sequence increases strictly.  Hence the
  schedule of \<^verbatim>\<open>_resize_head_1d\<close> is defined (the call returns) for every target size of at
  least one element, on a head of at least one lane.
\<close>

theorem fold_sizes_terminates:
  "(1 \<le> small \<and> small \<le> big \<longrightarrow>
      (\<exists>sizes. fold_sizes small big = Some sizes \<and> sizes \<noteq> [] \<and>
         hd sizes = small \<and> last sizes = big \<and>
         (\<forall>i. Suc i < length sizes \<longrightarrow>
            sizes ! Suc i = min (2 * sizes ! i) big \<and> sizes ! i < sizes ! Suc i))) \<and>
   (1 \<le> sz \<and> head \<noteq> [] \<longrightarrow> resize_head_1d prim (head, tail) sz \<noteq> None)"
proof (intro conjI impI)
  assume a: "1 \<le> small \<and> small \<le> big"
  from a have "1 \<le> small" "small \<le> big" by simp_all
  from fold_sizes_returns[OF this]
  obtain sizes where s: "fold_sizes small big = Some sizes" "sizes \<noteq> []"
    "hd sizes = small" "last sizes = big" "doubling big sizes"
    by blast
  show "\<exists>sizes. fold_sizes small big = Some sizes \<and> sizes \<noteq> [] \<and>
         hd sizes = small \<and> last sizes = big \<and>
         (\<forall>i. Suc i < length sizes \<longrightarrow>
            sizes ! Suc i = min (2 * sizes ! i) big \<and> sizes ! i < sizes ! Suc i)"
  proof (intro exI[of _ sizes] conjI allI impI)
    fix i assume "Suc i < length sizes"
    from doubling_nth[OF s(5) this]
    show "sizes ! Suc i = min (2 * sizes ! i) big" "sizes ! i < sizes ! Suc i" by blast+
  qed (rule s)+
next
  assume "1 \<le> sz \<and> head \<noteq> []"
  then have "1 \<le> sz" "head \<noteq> []" by simp_all
  then show "resize_head_1d prim (head, tail) sz \<noteq> None"
    by (rule resize_head_1d_returns)
qed

theorem fold_sizes_terminates_witness:
  "fold_sizes 3 20 = Some [3, 6, 12, 20] \<and>
   (\<exists>sizes. fold_sizes 3 20 = Some sizes \<and> hd sizes = 3 \<and> last sizes = 20) \<and>
   resize_head_1d stack_prim ([5], []) 2 \<noteq> None"
proof -
  have e: "fold_sizes 3 20 = Some [3, 6, 12, 20]"
    by (simp add: fold_sizes_def fold_sizes_loop.simps)
  have h1: "(1::int) \<le> 3 \<and> (3::int) \<le> 20" by simp
  have h2: "(1::int) \<le> 2 \<and> [5 :: u64] \<noteq> []" by simp
  note t = fold_sizes_terminates[of 3 20 2 "[5]" stack_prim "[]"]
  from t h1 obtain sizes where "fold_sizes 3 20 = Some sizes" "hd sizes = 3" "last sizes = 20"
    by blast
  then have "\<exists>sizes. fold_sizes 3 20 = Some sizes \<and> hd sizes = 3 \<and> last sizes = 20"
    by blast
  moreover from t h2 have "resize_head_1d stack_prim ([5], []) 2 \<noteq> None" by blast
  ultimately show ?thesis using e by blast
qed

section \<open>substack: frame\<close>

lemma fold_update_length:
  "length (fold (\<lambda>(i, v) h. h[i := v]) ps h) = length h"
  by (induction ps arbitrary: h) (auto split: prod.splits)

lemma fold_update_outside:
  "i \<notin> fst ` set ps \<Longrightarrow> fold (\<lambda>(i, v) h. h[i := v]) ps h ! i = h ! i"
  by (induction ps arbitrary: h) (auto split: prod.splits)

lemma fold_update_inside:
  assumes "distinct (map fst ps)" "k < length ps" "fst (ps ! k) < length h"
  shows "fold (\<lambda>(i, v) h. h[i := v]) ps h ! fst (ps ! k) = snd (ps ! k)"
  using assms
proof (induction ps arbitrary: h k)
  case Nil
  then show ?case by simp
next
  case (Cons p ps)
  obtain j v where p: "p = (j, v)" by (cases p)
  show ?case
  proof (cases k)
    case 0
    have "j \<notin> fst ` set ps" using Cons.prems(1) p by auto
    then have "fold (\<lambda>(i, v) h. h[i := v]) ps (h[j := v]) ! j = h[j := v] ! j"
      by (rule fold_update_outside)
    with 0 p Cons.prems(3) show ?thesis by simp
  next
    case (Suc k')
    with Cons.prems have "distinct (map fst ps)" "k' < length ps"
      "fst (ps ! k') < length (h[j := v])" by simp_all
    from Cons.IH[OF this] Suc p show ?thesis by simp
  qed
qed

lemma view_update_frame:
  assumes "view_update head view_fun = Inr (subhead, update)"
  shows "subhead = map (\<lambda>i. head ! i) (view_fun head)"
    and "length (update new) = length head"
    and "i \<notin> set (view_fun head) \<Longrightarrow> update new ! i = head ! i"
    and "distinct (view_fun head) \<Longrightarrow> length new = length (view_fun head) \<Longrightarrow>
         k < length new \<Longrightarrow> update new ! (view_fun head ! k) = new ! k"
proof -
  let ?idxs = "view_fun head"
  from assms have ok: "list_all (\<lambda>i. i < length head) ?idxs"
    and sub: "subhead = map (\<lambda>i. head ! i) ?idxs"
    and upd: "update = (\<lambda>subhead. fold (\<lambda>(i, v) h. h[i := v]) (zip ?idxs subhead) head)"
    by (auto simp: view_update_def Let_def split: if_splits)
  show "subhead = map (\<lambda>i. head ! i) ?idxs" by (rule sub)
  show "length (update new) = length head" by (simp add: upd fold_update_length)
  show "update new ! i = head ! i" if "i \<notin> set ?idxs"
  proof -
    have "i \<notin> fst ` set (zip ?idxs new)" using that by (auto dest: set_zip_leftD)
    then show ?thesis by (simp add: upd fold_update_outside)
  qed
  show "update new ! (?idxs ! k) = new ! k"
    if "distinct ?idxs" "length new = length ?idxs" "k < length new"
  proof -
    have d: "distinct (map fst (zip ?idxs new))" using that by simp
    have k: "k < length (zip ?idxs new)" using that by simp
    have "?idxs ! k < length head" using ok that by (simp add: list_all_length)
    then have b: "fst (zip ?idxs new ! k) < length head" using that by simp
    from fold_update_inside[OF d k b] that show ?thesis by (simp add: upd)
  qed
qed

text \<open>
  Claim C9.  For every inner codec and view, whenever \<^verbatim>\<open>substack\<close>'s push (or pop) returns,
  the inner codec was run on the viewed lanes and the input tail, the returned tail is
  exactly the tail the inner codec returned, and the returned head agrees with the input
  head everywhere outside the view: only the viewed lanes are replaced, by the inner
  codec's result.
\<close>

theorem substack_frame:
  "(substack_push c view_fun (head, tail) data = Inr (head1, tail1) \<longrightarrow>
      (\<exists>subhead1. push c (map (\<lambda>i. head ! i) (view_fun head), tail) data = Inr (subhead1, tail1) \<and>
         frame_ok head (view_fun head) subhead1 head1)) \<and>
   (substack_pop c view_fun (head, tail) = Inr ((head2, tail2), data2) \<longrightarrow>
      (\<exists>subhead2. pop c (map (\<lambda>i. head ! i) (view_fun head), tail) = Inr ((subhead2, tail2), data2) \<and>
         frame_ok head (view_fun head) subhead2 head2))"
proof (intro conjI impI)
  assume a: "substack_push c view_fun (head, tail) data = Inr (head1, tail1)"
  then obtain subhead update where v: "view_update head view_fun = Inr (subhead, update)"
    by (auto simp: substack_push_def split: sum.splits)
  with a obtain subhead1 where p: "push c (subhead, tail) data = Inr (subhead1, tail1)"
    and h: "head1 = update subhead1"
    by (auto simp: substack_push_def split: sum.splits)
  have "frame_ok head (view_fun head) subhead1 head1"
    unfolding frame_ok_def h using view_update_frame(2,3,4)[OF v] by auto
  with p view_update_frame(1)[OF v]
  show "\<exists>subhead1. push c (map (\<lambda>i. head ! i) (view_fun head), tail) data = Inr (subhead1, tail1) \<and>
         frame_ok head (view_fun head) subhead1 head1"
    by auto
next
  assume a: "substack_pop c view_fun (head, tail) = Inr ((head2, tail2), data2)"
  then obtain subhead update where v: "view_update head view_fun = Inr (subhead, update)"
    by (auto simp: substack_pop_def split: sum.splits)
  with a obtain subhead2 where p: "pop c (subhead, tail) = Inr ((subhead2, tail2), data2)"
    and h: "head2 = update subhead2"
    by (auto simp: substack_pop_def split: sum.splits)
  have "frame_ok head (view_fun head) subhead2 head2"
    unfolding frame_ok_def h using view_update_frame(2,3,4)[OF v] by auto
  with p view_update_frame(1)[OF v]
  show "\<exists>subhead2. pop c (map (\<lambda>i. head ! i) (view_fun head), tail) = Inr ((subhead2, tail2), data2) \<and>
         frame_ok head (view_fun head) subhead2 head2"
    by auto
qed

theorem substack_frame_witness:
  "substack_push (Uniform stack_prim (Scalar 8)) (slice_to 2) ([5, 6, 7], []) (Array [1, 2])
      = Inr ([5, 6, 7], [[1, 2]]) \<and>
   (\<exists>subhead1. push (Uniform stack_prim (Scalar 8)) ([5, 6], []) (Array [1, 2])
      = Inr (subhead1, [[1, 2]]) \<and> frame_ok [5, 6, 7] [0, 1] subhead1 [5, 6, 7])"
proof -
  have v: "slice_to 2 [5, 6, 7 :: u64] = [0, 1]"
    by (simp add: slice_to_def upt_rec[of 0] upt_rec[of 1] upt_rec[of 2])
  have e: "substack_push (Uniform stack_prim (Scalar 8)) (slice_to 2) ([5, 6, 7], [])
      (Array [1, 2]) = Inr ([5, 6, 7], [[1, 2]])"
    by (simp add: substack_push_def view_update_def v Uniform_def NonUniform_def
        NonUniform_push_def uniform_enc_statfun_def stack_prim_def upt_rec[of 0] upt_rec[of 1]
        upt_rec[of 2])
  from substack_frame[where c = "Uniform stack_prim (Scalar 8)" and view_fun = "slice_to 2"
      and head = "[5, 6, 7]" and tail = "[]" and data = "Array [1, 2]"
      and ?head1.0 = "[5, 6, 7]" and ?tail1.0 = "[[1, 2]]"] e
  have "\<exists>subhead1. push (Uniform stack_prim (Scalar 8))
        (map (\<lambda>i. [5, 6, 7] ! i) (slice_to 2 [5, 6, 7]), []) (Array [1, 2])
      = Inr (subhead1, [[1, 2]]) \<and> frame_ok [5, 6, 7] (slice_to 2 [5, 6, 7]) subhead1 [5, 6, 7]"
    by blast
  then have "\<exists>subhead1. push (Uniform stack_prim (Scalar 8)) ([5, 6], []) (Array [1, 2])
      = Inr (subhead1, [[1, 2]]) \<and> frame_ok [5, 6, 7] [0, 1] subhead1 [5, 6, 7]"
    by (simp add: v)
  with e show ?thesis by blast
qed

section \<open>AutoRegressive: the optional parameters of push\<close>

text \<open>
  Claim C10.  \<^verbatim>\<open>AutoRegressive\<close>'s push recomputes the parameters with the one call
  \<^verbatim>\<open>param_fn(data)\<close> exactly when \<^verbatim>\<open>not all_params\<close> is true (\<^verbatim>\<open>None\<close>, zero and an empty
  container are such arguments), and uses the given parameters when it is false; for a
  numpy array of more than one element the test itself raises ValueError, so push never
  uses such an array.
\<close>

theorem AutoRegressive_push_all_params:
  "(py_not all_params = Inr True \<longrightarrow>
      AutoRegressive_push param_fn elem_idxs elem_codec message data all_params =
        AutoRegressive_push_loop elem_codec data (NdArray (param_fn data None))
          (rev elem_idxs) message) \<and>
   (py_not all_params = Inr False \<longrightarrow>
      AutoRegressive_push param_fn elem_idxs elem_codec message data all_params =
        AutoRegressive_push_loop elem_codec data all_params (rev elem_idxs) message) \<and>
   (1 < length ps \<longrightarrow>
      AutoRegressive_push param_fn elem_idxs elem_codec message data (NdArray ps) =
        Inl ValueError) \<and>
   py_not (PyNone :: 'a py_arg) = Inr True \<and>
   py_not (PyNumber (0 :: 'a :: zero)) = Inr True \<and>
   py_not (PySequence ([] :: 'a list)) = Inr True \<and>
   py_not (NdArray ([] :: 'a list)) = Inr True"
  by (simp add: AutoRegressive_push_def)

theorem AutoRegressive_push_all_params_witness:
  "AutoRegressive_push prefix_sum_params [0, 1, 2] (shift_codec stack_prim) ([5], [])
       [1, 2, 3] PyNone = Inr ([5], [[1], [3], [6]]) \<and>
   AutoRegressive_push prefix_sum_params [0, 1, 2] (shift_codec stack_prim) ([5], [])
       [1, 2, 3] (PySequence [0, 0, 0]) = Inr ([5], [[1], [2], [3]]) \<and>
   AutoRegressive_push prefix_sum_params [0, 1, 2] (shift_codec stack_prim) ([5], [])
       [1, 2, 3] (NdArray [0, 1, 3]) = Inl ValueError"
proof -
  let ?push = "AutoRegressive_push prefix_sum_params [0, 1, 2] (shift_codec stack_prim)
      ([5], []) [1, 2, 3]"
  have n: "py_not (PyNone :: u64 py_arg) = Inr True"
    and s: "py_not (PySequence [0, 0, 0 :: u64]) = Inr False"
    and l: "1 < length [0, 1, 3 :: u64]"
    by simp_all
  have p: "prefix_sum_params [1, 2, 3] None = [0, 1, 3]"
    by (simp add: prefix_sum_params_def upt_rec[of 0] upt_rec[of 1] upt_rec[of 2])
  note t = AutoRegressive_push_all_params[where param_fn = prefix_sum_params
      and elem_idxs = "[0, 1, 2]" and elem_codec = "shift_codec stack_prim"
      and message = "([5], [])" and data = "[1, 2, 3]" and ps = "[0, 1, 3]"]
  have "?push PyNone = Inr ([5], [[1], [3], [6]])"
    using t[where all_params = PyNone] n
    by (simp add: p shift_codec_def NonUniform_def NonUniform_push_def stack_prim_def)
  moreover have "?push (PySequence [0, 0, 0]) = Inr ([5], [[1], [2], [3]])"
    using t[where all_params = "PySequence [0, 0, 0]"] s
    by (simp add: shift_codec_def NonUniform_def NonUniform_push_def stack_prim_def)
  moreover have "?push (NdArray [0, 1, 3]) = Inl ValueError"
    using t[where all_params = PyNone] l by blast
  ultimately show ?thesis by blast
qed

section \<open>Benford64\<close>

lemma bit_length_0: "bit_length 0 = 0"
  by (subst bit_length.simps) simp

lemma bit_length_1: "bit_length (Suc 0) = Suc 0"
  by (subst bit_length.simps) (simp add: bit_length_0)

lemma bit_length_eq: "2 ^ k \<le> n \<Longrightarrow> n < 2 ^ Suc k \<Longrightarrow> bit_length n = Suc k"
proof (induction k arbitrary: n)
  case 0
  then have "n = 1" by simp
  then show ?case by (simp add: bit_length_1)
next
  case (Suc k)
  have "2 ^ k \<le> n div 2" "n div 2 < 2 ^ Suc k" using Suc.prems by auto
  from Suc.IH[OF this] have "bit_length (n div 2) = Suc k" .
  moreover have "n \<noteq> 0" using Suc.prems by auto
  ultimately show ?case by (subst bit_length.simps) simp
qed

lemma bit_length_bounds:
  "0 < n \<Longrightarrow> 2 ^ (bit_length n - 1) \<le> n \<and> n < 2 ^ bit_length n"
proof (induction n rule: bit_length.induct)
  case (1 n)
  show ?case
  proof (cases "n div 2 = 0")
    case True
    with "1.prems" have "n = 1" by (auto simp: div_eq_0_iff)
    then show ?thesis by (simp add: bit_length_1)
  next
    case False
    with "1.IH" "1.prems" have ih: "2 ^ (bit_length (n div 2) - 1) \<le> n div 2"
      "n div 2 < 2 ^ bit_length (n div 2)" by auto
    have bl: "bit_length n = Suc (bit_length (n div 2))"
      using "1.prems" by (subst bit_length.simps) simp
    have pos: "0 < bit_length (n div 2)"
      using False by (subst bit_length.simps) simp
    then obtain j where j: "bit_length (n div 2) = Suc j" by (cases "bit_length (n div 2)") auto
    from ih show ?thesis unfolding bl j by auto
  qed
qed

lemma unat_mask_low: "unat ((v :: u64) AND (push_bit 31 1 - 1)) = unat v mod 2 ^ 31"
proof -
  have "(push_bit 31 1 - 1 :: u64) = mask 31" by (simp add: mask_eq_exp_minus_1)
  then have "v AND (push_bit 31 1 - 1) = take_bit 31 v" by (simp only: take_bit_eq_mask)
  then have "unat (v AND (push_bit 31 1 - 1)) = take_bit 31 (unat v)"
    by (simp only: unsigned_take_bit_eq)
  then show ?thesis by (simp only: take_bit_eq_mod)
qed

lemma unat_high:
  "unat (drop_bit 31 ((v :: u64) AND (push_bit l 1 - 1))) = (unat v mod 2 ^ l) div 2 ^ 31"
proof -
  have "(push_bit l 1 - 1 :: u64) = mask l" by (simp add: mask_eq_exp_minus_1)
  then have "v AND (push_bit l 1 - 1) = take_bit l v" by (simp only: take_bit_eq_mask)
  then have "unat (drop_bit 31 (v AND (push_bit l 1 - 1))) = drop_bit 31 (take_bit l (unat v))"
    by (simp only: unat_drop_bit_eq unsigned_take_bit_eq)
  then show ?thesis by (simp only: take_bit_eq_mod drop_bit_eq_div)
qed

lemma Uniform_roundtrips:
  assumes "lifo pmax prim" "pmax < 64"
  shows "roundtrips (Uniform prim prec) {m. length (fst m) = n}
           {s. symbol_ok pmax n uniform_enc_statfun uniform_dec_statfun prec s}"
  unfolding Uniform_def using assms by (rule NonUniform_roundtrips)

lemma Uniform_push_pop:
  assumes "lifo pmax prim" "pmax < 64" "length (fst m) = n" "length xs = n" "shaped n prec"
    and "\<And>i. i < n \<Longrightarrow> unat (nd_at prec i) \<le> pmax \<and> unat (xs ! i) < 2 ^ unat (nd_at prec i)"
  shows "push (Uniform prim prec) m (Array xs) = Inr (vpush prim m (Array xs) (Scalar 1) prec) \<and>
         length (fst (vpush prim m (Array xs) (Scalar 1) prec)) = n \<and>
         pop (Uniform prim prec) (vpush prim m (Array xs) (Scalar 1) prec) = Inr (m, Array xs)"
proof -
  have ok: "symbol_ok pmax n uniform_enc_statfun uniform_dec_statfun prec (Array xs)"
    using assms(4,5,6) by (rule symbol_ok_uniform)
  have p: "push (Uniform prim prec) m (Array xs) = Inr (vpush prim m (Array xs) (Scalar 1) prec)"
    by (simp add: Uniform_def NonUniform_def NonUniform_push_def uniform_enc_statfun_def)
  have "m \<in> {m. length (fst m) = n}"
    "Array xs \<in> {s. symbol_ok pmax n uniform_enc_statfun uniform_dec_statfun prec s}"
    using ok assms(3) by simp_all
  with Uniform_roundtrips[OF assms(1,2), of prec n]
  obtain m' where m': "m' \<in> {m. length (fst m) = n}"
    "push (Uniform prim prec) m (Array xs) = Inr m'"
    "pop (Uniform prim prec) m' = Inr (m, Array xs)"
    unfolding roundtrips_def by blast
  from m'(2) p have "m' = vpush prim m (Array xs) (Scalar 1) prec" by simp
  with m' p show ?thesis by simp
qed

lemma Benford64_push_pop:
  fixes prim :: "'t vrans"
  assumes l: "lifo pmax prim" and pm: "31 \<le> pmax" "pmax < 64"
    and n: "length (fst m) = length xs"
    and r: "\<And>v. v \<in> set xs \<Longrightarrow> 31 \<le> unat (np_log2_u64 v) \<and> unat (np_log2_u64 v) \<le> 62"
  shows "Benford64_push prim m (Array xs) =
           Inr (vpush prim (vpush prim (vpush prim m
                  (Array (map benford_low xs)) (Scalar 1) (Scalar 31))
                  (Array (map benford_high xs)) (Scalar 1) (Array (map benford_delta xs)))
                  (Array (map benford_delta xs)) (Scalar 1) (Scalar 5)) \<and>
         Benford64_pop prim
              (vpush prim (vpush prim (vpush prim m
                  (Array (map benford_low xs)) (Scalar 1) (Scalar 31))
                  (Array (map benford_high xs)) (Scalar 1) (Array (map benford_delta xs)))
                  (Array (map benford_delta xs)) (Scalar 1) (Scalar 5)) =
           Inr (m, Array (map (\<lambda>v. benford_rebuild (benford_delta v) (benford_high v) (benford_low v)) xs))"
proof -
  let ?n = "length xs"
  let ?lows = "map benford_low xs" and ?highs = "map benford_high xs"
    and ?deltas = "map benford_delta xs"
  let ?m1 = "vpush prim m (Array ?lows) (Scalar 1) (Scalar 31)"
  let ?m2 = "vpush prim ?m1 (Array ?highs) (Scalar 1) (Array ?deltas)"
  let ?m3 = "vpush prim ?m2 (Array ?deltas) (Scalar 1) (Scalar 5)"
  have d: "unat (benford_delta v) = unat (np_log2_u64 v) - 31" if "v \<in> set xs" for v
  proof -
    have "(31 :: u64) \<le> np_log2_u64 v" using r[OF that] by (simp add: word_le_nat_alt)
    then show ?thesis by (simp add: benford_delta_def unat_sub)
  qed
  have s1: "push (Uniform prim (Scalar 31)) m (Array ?lows) = Inr ?m1 \<and>
      length (fst ?m1) = ?n \<and> pop (Uniform prim (Scalar 31)) ?m1 = Inr (m, Array ?lows)"
  proof (rule Uniform_push_pop[OF l pm(2) n])
    show "length ?lows = ?n" by simp
    show "shaped ?n (Scalar (31 :: u64))" by (simp add: shaped_def)
    fix i assume "i < ?n"
    have "unat (benford_low (xs ! i)) = unat (xs ! i) mod 2 ^ 31"
      unfolding benford_low_def by (rule unat_mask_low)
    then have "unat (benford_low (xs ! i)) < 2 ^ 31" by simp
    then show "unat (nd_at (Scalar (31 :: u64)) i) \<le> pmax \<and>
        unat (?lows ! i) < 2 ^ unat (nd_at (Scalar (31 :: u64)) i)"
      using pm(1) \<open>i < ?n\<close> by simp
  qed
  then have n1: "length (fst ?m1) = ?n" by simp
  have s2: "push (Uniform prim (Array ?deltas)) ?m1 (Array ?highs) = Inr ?m2 \<and>
      length (fst ?m2) = ?n \<and> pop (Uniform prim (Array ?deltas)) ?m2 = Inr (?m1, Array ?highs)"
  proof (rule Uniform_push_pop[OF l pm(2) n1])
    show "length ?highs = ?n" by simp
    show "shaped ?n (Array ?deltas)" by (simp add: shaped_def)
    fix i assume i: "i < ?n"
    let ?v = "xs ! i" and ?l = "unat (np_log2_u64 (xs ! i))"
    from i have v: "?v \<in> set xs" by simp
    from r[OF v] have lr: "31 \<le> ?l" "?l \<le> 62" by simp_all
    have "unat ?v mod 2 ^ ?l < 2 ^ ?l" by simp
    also have "(2::nat) ^ ?l = 2 ^ (?l - 31) * 2 ^ 31"
    proof -
      have "?l = (?l - 31) + 31" using lr by simp
      then have "(2::nat) ^ ?l = 2 ^ ((?l - 31) + 31)" by simp
      then show ?thesis by (simp only: power_add)
    qed
    finally have "unat ?v mod 2 ^ ?l div 2 ^ 31 < 2 ^ (?l - 31)"
      by (simp add: less_mult_imp_div_less)
    moreover have "unat (benford_high ?v) = unat ?v mod 2 ^ ?l div 2 ^ 31"
      unfolding benford_high_def by (rule unat_high)
    ultimately have "unat (benford_high ?v) < 2 ^ (?l - 31)" by simp
    then show "unat (nd_at (Array ?deltas) i) \<le> pmax \<and>
        unat (?highs ! i) < 2 ^ unat (nd_at (Array ?deltas) i)"
      using i lr pm(1) d[OF v] by simp
  qed
  then have n2: "length (fst ?m2) = ?n" by simp
  have s3: "push (Uniform prim (Scalar 5)) ?m2 (Array ?deltas) = Inr ?m3 \<and>
      length (fst ?m3) = ?n \<and> pop (Uniform prim (Scalar 5)) ?m3 = Inr (?m2, Array ?deltas)"
  proof (rule Uniform_push_pop[OF l pm(2) n2])
    show "length ?deltas = ?n" by simp
    show "shaped ?n (Scalar (5 :: u64))" by (simp add: shaped_def)
    fix i assume i: "i < ?n"
    then have v: "xs ! i \<in> set xs" by simp
    from r[OF v] d[OF v] have "unat (benford_delta (xs ! i)) < 32" by linarith
    then have "unat (benford_delta (xs ! i)) < 2 ^ 5" by simp
    then show "unat (nd_at (Scalar (5 :: u64)) i) \<le> pmax \<and>
        unat (?deltas ! i) < 2 ^ unat (nd_at (Scalar (5 :: u64)) i)"
      using i pm(1) by simp
  qed
  have e1: "map_nd (\<lambda>v. v AND (push_bit 31 1 - 1)) (Array xs) = Array ?lows"
    by (simp add: benford_low_def)
  have e2: "map_nd (\<lambda>l. l - 31) (map_nd np_log2_u64 (Array xs)) = Array ?deltas"
    by (simp add: benford_delta_def)
  have e3: "map_nd (drop_bit 31)
      (map_nd (\<lambda>v. v AND (push_bit (unat (np_log2_u64 v)) 1 - 1)) (Array xs)) = Array ?highs"
    by (simp add: benford_high_def)
  have push: "Benford64_push prim m (Array xs) = Inr ?m3"
  proof -
    from s1 s2 s3 have p1: "push (Uniform prim (Scalar 31)) m (Array ?lows) = Inr ?m1"
      and p2: "push (Uniform prim (Array ?deltas)) ?m1 (Array ?highs) = Inr ?m2"
      and p3: "push (Uniform prim (Scalar 5)) ?m2 (Array ?deltas) = Inr ?m3"
      by blast+
    show ?thesis
      by (simp only: Benford64_push_def Let_def e1 e2 e3 p1 p2 p3 sum.case)
  qed
  have e4: "map_nd (\<lambda>l. l - 31) (map_nd (\<lambda>l. l + 31) (Array ?deltas)) = Array ?deltas"
    by (simp add: comp_def)
  have e5: "broadcast2 (OR) (map_nd (\<lambda>l. push_bit (unat l) 1) (map_nd (\<lambda>l. l + 31) (Array ?deltas)))
      (map_nd (push_bit 31) (Array ?highs)) =
      Inr (Array (map (\<lambda>v. push_bit (unat (benford_delta v + 31)) 1 OR push_bit 31 (benford_high v)) xs))"
    by (simp add: comp_def zip_map_map zip_same_conv_map)
  have e6: "broadcast2 (OR)
      (Array (map (\<lambda>v. push_bit (unat (benford_delta v + 31)) 1 OR push_bit 31 (benford_high v)) xs))
      (Array ?lows) =
      Inr (Array (map (\<lambda>v. benford_rebuild (benford_delta v) (benford_high v) (benford_low v)) xs))"
    by (simp add: comp_def zip_map_map zip_same_conv_map benford_rebuild_def or.assoc)
  have pop: "Benford64_pop prim ?m3 =
      Inr (m, Array (map (\<lambda>v. benford_rebuild (benford_delta v) (benford_high v) (benford_low v)) xs))"
  proof -
    from s1 s2 s3 have p1: "pop (Uniform prim (Scalar 31)) ?m1 = Inr (m, Array ?lows)"
      and p2: "pop (Uniform prim (Array ?deltas)) ?m2 = Inr (?m1, Array ?highs)"
      and p3: "pop (Uniform prim (Scalar 5)) ?m3 = Inr (?m2, Array ?deltas)"
      by blast+
    show ?thesis
      by (simp only: Benford64_pop_def Let_def p3 sum.case prod.case e4 p2 p1 e5 e6)
  qed
  from push pop show ?thesis by simp
qed

lemma bit_length_range:
  assumes "2 ^ 31 \<le> n" "n < 2 ^ 63"
  shows "32 \<le> bit_length n \<and> bit_length n \<le> 63"
proof -
  from assms have "0 < n" by (cases n) auto
  from bit_length_bounds[OF this] have b: "2 ^ (bit_length n - 1) \<le> n" "n < 2 ^ bit_length n"
    by simp_all
  from b(1) assms(2) have "(2::nat) ^ (bit_length n - 1) < 2 ^ 63" by linarith
  then have "bit_length n - 1 < 63" by (rule power_less_imp_less_exp[where a = 2, rotated]) simp
  moreover from b(2) assms(1) have "(2::nat) ^ 31 < 2 ^ bit_length n" by linarith
  then have "31 < bit_length n" by (rule power_less_imp_less_exp[where a = 2, rotated]) simp
  ultimately show ?thesis by linarith
qed

lemma nat_bit_top:
  assumes "2 ^ l \<le> (n::nat)" "n < 2 ^ Suc l"
  shows "bit n l" and "l < k \<Longrightarrow> \<not> bit n k"
proof -
  have "n div 2 ^ l = 1"
  proof -
    have "n div 2 ^ l < 2" using assms(2) by (simp add: less_mult_imp_div_less)
    moreover have "1 \<le> n div 2 ^ l" using assms(1) by (simp add: div_greater_zero_iff Suc_le_eq)
    ultimately show ?thesis by linarith
  qed
  then show "bit n l" by (simp add: bit_iff_odd)
  show "\<not> bit n k" if "l < k"
  proof -
    have "(2::nat) ^ Suc l \<le> 2 ^ k" using that by (intro power_increasing) auto
    with assms(2) have "n < 2 ^ k" by linarith
    then show ?thesis by (simp add: bit_iff_odd)
  qed
qed

lemma benford_rebuild_exact:
  fixes v :: u64
  assumes "2 ^ 31 \<le> unat v" "unat v < 2 ^ 63" "log2_exact v"
  shows "benford_rebuild (benford_delta v) (benford_high v) (benford_low v) = v"
proof -
  define l where "l = bit_length (unat v) - 1"
  from bit_length_range[OF assms(1,2)] have lr: "31 \<le> l" "l \<le> 62" "bit_length (unat v) = Suc l"
    by (auto simp: l_def)
  have pos: "0 < unat v" using assms(1) by (cases "unat v") auto
  from bit_length_bounds[OF pos] lr(3) have b: "2 ^ l \<le> unat v" "unat v < 2 ^ Suc l"
    by simp_all
  have lx: "unat (np_log2_u64 v) = l" using assms(3) by (simp add: log2_exact_def l_def)
  have top: "bit v l" using nat_bit_top(1)[OF b] by (simp add: bit_unsigned_iff)
  have above: "\<not> bit v k" if "l < k" for k
    using nat_bit_top(2)[OF b that] by (simp add: bit_unsigned_iff)
  have "(31 :: u64) \<le> np_log2_u64 v" using lx lr by (simp add: word_le_nat_alt)
  then have dl: "benford_delta v + 31 = np_log2_u64 v" by (simp add: benford_delta_def)
  have m1: "(push_bit l 1 - 1 :: u64) = mask l" and m2: "(push_bit 31 1 - 1 :: u64) = mask 31"
    by (simp_all add: mask_eq_exp_minus_1)
  have hi: "benford_high v = drop_bit 31 (take_bit l v)"
    by (simp only: benford_high_def lx m1 take_bit_eq_mask)
  have lo: "benford_low v = take_bit 31 v"
    by (simp only: benford_low_def m2 take_bit_eq_mask)
  have "benford_rebuild (benford_delta v) (benford_high v) (benford_low v) =
      push_bit l 1 OR push_bit 31 (drop_bit 31 (take_bit l v)) OR take_bit 31 v"
    by (simp only: benford_rebuild_def dl lx hi lo)
  also have "\<dots> = v"
  proof (rule bit_word_eqI)
    fix k assume k: "k < LENGTH(64)"
    consider "k < 31" | "31 \<le> k" "k < l" | "k = l" | "l < k" by linarith
    then show "bit (push_bit l 1 OR push_bit 31 (drop_bit 31 (take_bit l v)) OR take_bit 31 v) k
        \<longleftrightarrow> bit v k"
    proof cases
      case 1
      then show ?thesis using lr k
        by (auto simp: bit_or_iff bit_push_bit_iff bit_drop_bit_eq bit_take_bit_iff bit_1_iff bit_exp_iff)
    next
      case 2
      then show ?thesis using lr k
        by (auto simp: bit_or_iff bit_push_bit_iff bit_drop_bit_eq bit_take_bit_iff bit_1_iff bit_exp_iff)
    next
      case 3
      then show ?thesis using lr k top
        by (auto simp: bit_or_iff bit_push_bit_iff bit_drop_bit_eq bit_take_bit_iff bit_1_iff bit_exp_iff)
    next
      case 4
      then show ?thesis using lr k above[OF 4]
        by (auto simp: bit_or_iff bit_push_bit_iff bit_drop_bit_eq bit_take_bit_iff bit_1_iff bit_exp_iff)
    qed
  qed
  finally show ?thesis .
qed

lemma float64_near_power: "float64_of_nat (2 ^ 62 - 1) = 2 ^ 62"
proof -
  have "bit_length (2 ^ 62 - 1) = Suc 61" by (rule bit_length_eq) simp_all
  then show ?thesis by (simp add: float64_of_nat_def Let_def)
qed

lemma np_log2_near_power: "np_log2_u64 (2 ^ 62 - 1) = 62"
proof -
  have "bit_length (2 ^ 62) = Suc 62" by (rule bit_length_eq) simp_all
  moreover have "bit_length 62 = Suc 5" by (rule bit_length_eq) simp_all
  moreover have "unat (2 ^ 62 - 1 :: u64) = 2 ^ 62 - 1" by simp
  ultimately show ?thesis by (simp only: np_log2_u64_def float64_near_power Let_def) simp
qed

lemma np_log2_scenario: "np_log2_u64 (2 ^ 31 + 12345) = 31"
proof -
  have "bit_length (2 ^ 31 + 12345) = Suc 31" by (rule bit_length_eq) simp_all
  moreover have "bit_length 31 = Suc 4" by (rule bit_length_eq) simp_all
  moreover have "unat (2 ^ 31 + 12345 :: u64) = 2 ^ 31 + 12345" by simp
  ultimately show ?thesis by (simp add: np_log2_u64_def float64_of_nat_def Let_def)
qed

lemma benford_low_near_power: "benford_low (2 ^ 62 - 1) = 2 ^ 31 - 1"
  by (simp add: benford_low_def)

lemma benford_high_near_power: "benford_high (2 ^ 62 - 1) = 2 ^ 31 - 1"
  by (simp add: benford_high_def np_log2_near_power[simplified])

lemma benford_delta_near_power: "benford_delta (2 ^ 62 - 1) = 31"
  by (simp add: benford_delta_def np_log2_near_power[simplified])

lemma benford_rebuild_near_power: "benford_rebuild 31 (2 ^ 31 - 1) (2 ^ 31 - 1) = 2 ^ 63 - 1"
  by (simp add: benford_rebuild_def)

lemma benford_low_scenario: "benford_low (2 ^ 31 + 12345) = 12345"
  by (simp add: benford_low_def)

lemma benford_high_scenario: "benford_high (2 ^ 31 + 12345) = 0"
  by (simp add: benford_high_def np_log2_scenario[simplified])

lemma benford_delta_scenario: "benford_delta (2 ^ 31 + 12345) = 0"
  by (simp add: benford_delta_def np_log2_scenario[simplified])

lemma benford_rebuild_scenario: "benford_rebuild 0 0 12345 = 2 ^ 31 + 12345"
  by (simp add: benford_rebuild_def)

lemmas benford_near_power = benford_low_near_power benford_high_near_power
  benford_delta_near_power benford_rebuild_near_power

lemmas benford_scenario = benford_low_scenario benford_high_scenario
  benford_delta_scenario benford_rebuild_scenario

lemma singleton_range:
  assumes "31 \<le> unat (np_log2_u64 x) \<and> unat (np_log2_u64 x) \<le> 62" "v \<in> set [x]"
  shows "31 \<le> unat (np_log2_u64 v) \<and> unat (np_log2_u64 v) \<le> 62"
  using assms by simp

text \<open>
  Claim C3.  The round trip of \<^verbatim>\<open>Benford64\<close> on \<open>2^31 \<le> x < 2^63\<close>.  The scenario of the
  claim holds: \<open>x = 2^31 + 12345\<close> is pushed as low bits 12345, high bits 0 and length 0,
  and pops back as \<open>2^31 + 12345\<close>.  The round trip does not hold for every \<open>x\<close> of the
  range: \<open>x = 2^62 - 1\<close> converts to the float64 \<open>2^62\<close>, so \<^verbatim>\<open>np.uint64(np.log2(x))\<close> is 62
  and not 61, the leading 1 is not removed, the fields pushed are low bits \<open>2^31 - 1\<close>,
  high bits \<open>2^31 - 1\<close> and length 31, and pop returns \<open>2^63 - 1\<close>.  This holds for every
  primitive that satisfies the LIFO contract and every message of one lane.
\<close>

theorem Benford64_roundtrip_fails:
  fixes prim :: "'t vrans"
  assumes "lifo pmax prim" "31 \<le> pmax" "pmax < 64" "length (fst m) = 1"
  shows "Benford64_push prim m (Array [2 ^ 62 - 1]) =
           Inr (vpush prim (vpush prim (vpush prim m
                  (Array [2 ^ 31 - 1]) (Scalar 1) (Scalar 31))
                  (Array [2 ^ 31 - 1]) (Scalar 1) (Array [31]))
                  (Array [31]) (Scalar 1) (Scalar 5)) \<and>
         Benford64_pop prim
              (vpush prim (vpush prim (vpush prim m
                  (Array [2 ^ 31 - 1]) (Scalar 1) (Scalar 31))
                  (Array [2 ^ 31 - 1]) (Scalar 1) (Array [31]))
                  (Array [31]) (Scalar 1) (Scalar 5)) =
           Inr (m, Array [2 ^ 63 - 1]) \<and>
         Benford64_push prim m (Array [2 ^ 31 + 12345]) =
           Inr (vpush prim (vpush prim (vpush prim m
                  (Array [12345]) (Scalar 1) (Scalar 31))
                  (Array [0]) (Scalar 1) (Array [0]))
                  (Array [0]) (Scalar 1) (Scalar 5)) \<and>
         Benford64_pop prim
              (vpush prim (vpush prim (vpush prim m
                  (Array [12345]) (Scalar 1) (Scalar 31))
                  (Array [0]) (Scalar 1) (Array [0]))
                  (Array [0]) (Scalar 1) (Scalar 5)) =
           Inr (m, Array [2 ^ 31 + 12345])"
proof -
  have n: "length (fst m) = length [x]" for x :: u64
    using assms(4) by simp
  have q1: "31 \<le> unat (np_log2_u64 (2 ^ 62 - 1)) \<and> unat (np_log2_u64 (2 ^ 62 - 1)) \<le> 62"
    by (simp only: np_log2_near_power) simp
  have q2: "31 \<le> unat (np_log2_u64 (2 ^ 31 + 12345)) \<and>
      unat (np_log2_u64 (2 ^ 31 + 12345)) \<le> 62"
    by (simp only: np_log2_scenario) simp
  have r1: "31 \<le> unat (np_log2_u64 v) \<and> unat (np_log2_u64 v) \<le> 62"
    if "v \<in> set [2 ^ 62 - 1]" for v
    using q1 that by (rule singleton_range)
  have r2: "31 \<le> unat (np_log2_u64 v) \<and> unat (np_log2_u64 v) \<le> 62"
    if "v \<in> set [2 ^ 31 + 12345]" for v
    using q2 that by (rule singleton_range)
  note a = Benford64_push_pop[where xs = "[2 ^ 62 - 1]" and m = m, OF assms(1,2,3) n,
      unfolded list.map benford_near_power]
  note b = Benford64_push_pop[where xs = "[2 ^ 31 + 12345]" and m = m, OF assms(1,2,3) n,
      unfolded list.map benford_scenario]
  have a': "Benford64_push prim m (Array [2 ^ 62 - 1]) =
           Inr (vpush prim (vpush prim (vpush prim m
                  (Array [2 ^ 31 - 1]) (Scalar 1) (Scalar 31))
                  (Array [2 ^ 31 - 1]) (Scalar 1) (Array [31]))
                  (Array [31]) (Scalar 1) (Scalar 5)) \<and>
         Benford64_pop prim
              (vpush prim (vpush prim (vpush prim m
                  (Array [2 ^ 31 - 1]) (Scalar 1) (Scalar 31))
                  (Array [2 ^ 31 - 1]) (Scalar 1) (Array [31]))
                  (Array [31]) (Scalar 1) (Scalar 5)) =
           Inr (m, Array [2 ^ 63 - 1])"
    by (rule a) (rule r1)
  have b': "Benford64_push prim m (Array [2 ^ 31 + 12345]) =
           Inr (vpush prim (vpush prim (vpush prim m
                  (Array [12345]) (Scalar 1) (Scalar 31))
                  (Array [0]) (Scalar 1) (Array [0]))
                  (Array [0]) (Scalar 1) (Scalar 5)) \<and>
         Benford64_pop prim
              (vpush prim (vpush prim (vpush prim m
                  (Array [12345]) (Scalar 1) (Scalar 31))
                  (Array [0]) (Scalar 1) (Array [0]))
                  (Array [0]) (Scalar 1) (Scalar 5)) =
           Inr (m, Array [2 ^ 31 + 12345])"
    by (rule b) (rule r2)
  from a' b' show ?thesis by (intro conjI) (rule conjunct1, assumption | rule conjunct2, assumption)+
qed

theorem Benford64_roundtrip_fails_witness:
  "Benford64_push stack_prim ([7], []) (Array [2 ^ 62 - 1])
       = Inr ([7], [[31], [2 ^ 31 - 1], [2 ^ 31 - 1]]) \<and>
   Benford64_pop stack_prim ([7], [[31], [2 ^ 31 - 1], [2 ^ 31 - 1]])
       = Inr (([7], []), Array [2 ^ 63 - 1]) \<and>
   Benford64_push stack_prim ([7], []) (Array [2 ^ 31 + 12345])
       = Inr ([7], [[0], [0], [12345]]) \<and>
   Benford64_pop stack_prim ([7], [[0], [0], [12345]])
       = Inr (([7], []), Array [2 ^ 31 + 12345])"
proof -
  have h: "length (fst (([7], []) :: (u64 list list) message)) = 1" by simp
  have p: "(31::nat) \<le> 31" "(31::nat) < 64" by simp_all
  have v: "vpush stack_prim (h, t) (Array [x]) f q = (h, [x] # t)" if "length h = 1" for h t x f q
    using that by (simp add: stack_prim_def)
  note t = Benford64_roundtrip_fails[OF lifo_stack_prim[of 31] p h]
  show ?thesis
    using t by (simp only: v[of "[7]", simplified] )
qed

lemma benford_fields_exact:
  fixes v :: u64
  assumes "2 ^ 31 \<le> unat v" "unat v < 2 ^ 63" "log2_exact v"
  shows "31 \<le> unat (np_log2_u64 v) \<and> unat (np_log2_u64 v) \<le> 62"
    and "benford_low v = of_nat (unat v mod 2 ^ 31)"
    and "benford_high v = of_nat ((unat v - 2 ^ (bit_length (unat v) - 1)) div 2 ^ 31)"
    and "benford_delta v = of_nat (bit_length (unat v) - 32)"
proof -
  define l where "l = bit_length (unat v) - 1"
  from bit_length_range[OF assms(1,2)] have lr: "31 \<le> l" "l \<le> 62" "bit_length (unat v) = Suc l"
    by (auto simp: l_def)
  have pos: "0 < unat v" using assms(1) by (cases "unat v") auto
  from bit_length_bounds[OF pos] lr(3) have b: "2 ^ l \<le> unat v" "unat v < 2 ^ Suc l"
    by simp_all
  have lx: "unat (np_log2_u64 v) = l" using assms(3) by (simp add: log2_exact_def l_def)
  show "31 \<le> unat (np_log2_u64 v) \<and> unat (np_log2_u64 v) \<le> 62" using lx lr by simp
  have "unat (benford_low v) = unat v mod 2 ^ 31"
    unfolding benford_low_def by (rule unat_mask_low)
  then have "of_nat (unat (benford_low v)) = (of_nat (unat v mod 2 ^ 31) :: u64)" by simp
  then show "benford_low v = of_nat (unat v mod 2 ^ 31)" by simp
  have "(31 :: u64) \<le> np_log2_u64 v" using lx lr by (simp add: word_le_nat_alt)
  then have "unat (benford_delta v) = l - 31" by (simp add: benford_delta_def unat_sub lx)
  then have "of_nat (unat (benford_delta v)) = (of_nat (l - 31) :: u64)" by simp
  then show "benford_delta v = of_nat (bit_length (unat v) - 32)" using lr by simp
  have m: "unat v mod 2 ^ l = unat v - 2 ^ l"
  proof -
    have "unat v - 2 ^ l < 2 ^ l" using b by simp
    then have "(unat v - 2 ^ l) mod 2 ^ l = unat v - 2 ^ l" by simp
    moreover have "unat v mod 2 ^ l = (unat v - 2 ^ l) mod 2 ^ l"
      using b(1) by (simp add: le_mod_geq)
    ultimately show ?thesis by simp
  qed
  have "unat (benford_high v) = unat v mod 2 ^ l div 2 ^ 31"
    unfolding benford_high_def lx by (rule unat_high)
  then have "of_nat (unat (benford_high v)) = (of_nat ((unat v - 2 ^ l) div 2 ^ 31) :: u64)"
    by (simp only: m)
  then show "benford_high v = of_nat ((unat v - 2 ^ (bit_length (unat v) - 1)) div 2 ^ 31)"
    by (simp add: l_def)
qed

lemma Benford64_pop_structure:
  "Benford64_pop prim message =
     (case pop (Uniform prim (Scalar 5)) message of
        Inl e \<Rightarrow> Inl e
      | Inr (message1, delta) \<Rightarrow>
          (case pop (Uniform prim delta) message1 of
             Inl e \<Rightarrow> Inl e
           | Inr (message2, high) \<Rightarrow>
               (case pop (Uniform prim (Scalar 31)) message2 of
                  Inl e \<Rightarrow> Inl e
                | Inr (message3, low) \<Rightarrow>
                    (case broadcast2 (OR) (map_nd (\<lambda>d. push_bit (unat (d + 31)) 1) delta)
                            (map_nd (push_bit 31) high) of
                       Inl e \<Rightarrow> Inl e
                     | Inr hi \<Rightarrow>
                         (case broadcast2 (OR) hi low of
                            Inl e \<Rightarrow> Inl e
                          | Inr x \<Rightarrow> Inr (message3, x))))))"
proof -
  have "map_nd (\<lambda>l. l - 31) (map_nd (\<lambda>l. l + 31) d) = d" for d :: "u64 nd"
    by (cases d) (simp_all add: comp_def)
  moreover have "map_nd (\<lambda>l. push_bit (unat l) 1) (map_nd (\<lambda>l. l + 31) d) =
      map_nd (\<lambda>d. push_bit (unat (d + 31)) (1 :: u64)) d" for d :: "u64 nd"
    by (cases d) (simp_all add: comp_def)
  ultimately show ?thesis
    by (simp add: Benford64_pop_def Let_def split: sum.splits prod.splits)
qed

text \<open>
  The fields of \<^verbatim>\<open>Benford64\<close> where the computed length is the position of the leading
  bit.  Let every lane \<open>x\<close> satisfy \<open>2^31 \<le> x < 2^63\<close> and let
  \<^verbatim>\<open>np.log2\<close> give the position \<open>L = bit_length(x) - 1\<close> of its leading bit.  Then push
  makes three uniform pushes (frequency 1): the low 31 bits \<open>x mod 2^31\<close> at precision 31,
  the high bits \<open>(x - 2^L) div 2^31\<close> at precision \<open>L - 31\<close>, and the length
  \<open>L - 31 = bit_length(x) - 32\<close>, a number below 32, at precision 5.  Pop on the result
  returns the message and the lanes, and every lane is \<open>(1 << L) | (high << 31) | low\<close>.
  On any message, pop reads the length \<open>d\<close> at precision 5, the high bits at precision
  \<open>d\<close> and the low bits at precision 31, and returns
  \<open>(1 << (d + 31)) | (high << 31) | low\<close>.
\<close>

theorem Benford64_fields:
  fixes prim :: "'t vrans"
  assumes "lifo pmax prim" "31 \<le> pmax" "pmax < 64" "length (fst m) = length xs"
    and dom: "\<And>v. v \<in> set xs \<Longrightarrow> 2 ^ 31 \<le> unat v \<and> unat v < 2 ^ 63 \<and> log2_exact v"
  shows "Benford64_push prim m (Array xs) =
           Inr (vpush prim (vpush prim (vpush prim m
                  (Array (map (\<lambda>v. of_nat (unat v mod 2 ^ 31)) xs)) (Scalar 1) (Scalar 31))
                  (Array (map (\<lambda>v. of_nat ((unat v - 2 ^ (bit_length (unat v) - 1)) div 2 ^ 31)) xs))
                     (Scalar 1) (Array (map (\<lambda>v. of_nat (bit_length (unat v) - 32)) xs)))
                  (Array (map (\<lambda>v. of_nat (bit_length (unat v) - 32)) xs)) (Scalar 1) (Scalar 5)) \<and>
         Benford64_pop prim
              (vpush prim (vpush prim (vpush prim m
                  (Array (map (\<lambda>v. of_nat (unat v mod 2 ^ 31)) xs)) (Scalar 1) (Scalar 31))
                  (Array (map (\<lambda>v. of_nat ((unat v - 2 ^ (bit_length (unat v) - 1)) div 2 ^ 31)) xs))
                     (Scalar 1) (Array (map (\<lambda>v. of_nat (bit_length (unat v) - 32)) xs)))
                  (Array (map (\<lambda>v. of_nat (bit_length (unat v) - 32)) xs)) (Scalar 1) (Scalar 5)) =
           Inr (m, Array xs) \<and>
         (\<forall>v\<in>set xs. bit_length (unat v) - 32 < 32 \<and>
            v = push_bit (bit_length (unat v) - 1) 1 OR
                push_bit 31 (of_nat ((unat v - 2 ^ (bit_length (unat v) - 1)) div 2 ^ 31)) OR
                of_nat (unat v mod 2 ^ 31)) \<and>
         (\<forall>message. Benford64_pop prim message =
            (case pop (Uniform prim (Scalar 5)) message of
               Inl e \<Rightarrow> Inl e
             | Inr (message1, delta) \<Rightarrow>
                 (case pop (Uniform prim delta) message1 of
                    Inl e \<Rightarrow> Inl e
                  | Inr (message2, high) \<Rightarrow>
                      (case pop (Uniform prim (Scalar 31)) message2 of
                         Inl e \<Rightarrow> Inl e
                       | Inr (message3, low) \<Rightarrow>
                           (case broadcast2 (OR) (map_nd (\<lambda>d. push_bit (unat (d + 31)) 1) delta)
                                   (map_nd (push_bit 31) high) of
                              Inl e \<Rightarrow> Inl e
                            | Inr hi \<Rightarrow>
                                (case broadcast2 (OR) hi low of
                                   Inl e \<Rightarrow> Inl e
                                 | Inr x \<Rightarrow> Inr (message3, x)))))))"
proof -
  have d: "2 ^ 31 \<le> unat v" "unat v < 2 ^ 63" "log2_exact v" if "v \<in> set xs" for v
    using dom[OF that] by simp_all
  have r: "31 \<le> unat (np_log2_u64 v) \<and> unat (np_log2_u64 v) \<le> 62" if "v \<in> set xs" for v
    using benford_fields_exact(1)[OF d[OF that]] .
  have lows: "map benford_low xs = map (\<lambda>v. of_nat (unat v mod 2 ^ 31)) xs"
    by (rule map_cong[OF refl]) (rule benford_fields_exact(2)[OF d])
  have highs: "map benford_high xs =
      map (\<lambda>v. of_nat ((unat v - 2 ^ (bit_length (unat v) - 1)) div 2 ^ 31)) xs"
    by (rule map_cong[OF refl]) (rule benford_fields_exact(3)[OF d])
  have deltas: "map benford_delta xs = map (\<lambda>v. of_nat (bit_length (unat v) - 32)) xs"
    by (rule map_cong[OF refl]) (rule benford_fields_exact(4)[OF d])
  have rebuilt: "map (\<lambda>v. benford_rebuild (benford_delta v) (benford_high v) (benford_low v)) xs = xs"
    by (rule map_idI) (rule benford_rebuild_exact[OF d])
  note a = Benford64_push_pop[where xs = xs and m = m, OF assms(1,2,3,4),
      unfolded lows highs deltas rebuilt]
  have pp: "Benford64_push prim m (Array xs) =
           Inr (vpush prim (vpush prim (vpush prim m
                  (Array (map (\<lambda>v. of_nat (unat v mod 2 ^ 31)) xs)) (Scalar 1) (Scalar 31))
                  (Array (map (\<lambda>v. of_nat ((unat v - 2 ^ (bit_length (unat v) - 1)) div 2 ^ 31)) xs))
                     (Scalar 1) (Array (map (\<lambda>v. of_nat (bit_length (unat v) - 32)) xs)))
                  (Array (map (\<lambda>v. of_nat (bit_length (unat v) - 32)) xs)) (Scalar 1) (Scalar 5)) \<and>
         Benford64_pop prim
              (vpush prim (vpush prim (vpush prim m
                  (Array (map (\<lambda>v. of_nat (unat v mod 2 ^ 31)) xs)) (Scalar 1) (Scalar 31))
                  (Array (map (\<lambda>v. of_nat ((unat v - 2 ^ (bit_length (unat v) - 1)) div 2 ^ 31)) xs))
                     (Scalar 1) (Array (map (\<lambda>v. of_nat (bit_length (unat v) - 32)) xs)))
                  (Array (map (\<lambda>v. of_nat (bit_length (unat v) - 32)) xs)) (Scalar 1) (Scalar 5)) =
           Inr (m, Array xs)"
    by (rule a) (rule r)
  have lane: "bit_length (unat v) - 32 < 32 \<and>
            v = push_bit (bit_length (unat v) - 1) 1 OR
                push_bit 31 (of_nat ((unat v - 2 ^ (bit_length (unat v) - 1)) div 2 ^ 31)) OR
                of_nat (unat v mod 2 ^ 31)" if v: "v \<in> set xs" for v
  proof -
    from bit_length_range[OF d(1,2)[OF v]]
    have br: "32 \<le> bit_length (unat v)" "bit_length (unat v) \<le> 63" by simp_all
    have dl: "benford_delta v + 31 = np_log2_u64 v"
    proof -
      have "(31 :: u64) \<le> np_log2_u64 v" using r[OF v] by (simp add: word_le_nat_alt)
      then show ?thesis by (simp add: benford_delta_def)
    qed
    have "unat (benford_delta v + 31) = bit_length (unat v) - 1"
      using d(3)[OF v] by (simp only: dl log2_exact_def)
    then have "benford_rebuild (benford_delta v) (benford_high v) (benford_low v) =
        push_bit (bit_length (unat v) - 1) 1 OR
                push_bit 31 (of_nat ((unat v - 2 ^ (bit_length (unat v) - 1)) div 2 ^ 31)) OR
                of_nat (unat v mod 2 ^ 31)"
      by (simp only: benford_rebuild_def benford_fields_exact(2,3)[OF d[OF v]])
    with benford_rebuild_exact[OF d[OF v]] br show ?thesis by simp
  qed
  from pp lane Benford64_pop_structure[of prim] show ?thesis by blast
qed

theorem Benford64_fields_witness:
  "log2_exact (2 ^ 31 + 12345) \<and>
   Benford64_push stack_prim ([7], []) (Array [2 ^ 31 + 12345])
       = Inr ([7], [[0], [0], [12345]]) \<and>
   Benford64_pop stack_prim ([7], [[0], [0], [12345]])
       = Inr (([7], []), Array [2 ^ 31 + 12345])"
proof -
  let ?x = "2 ^ 31 + 12345 :: u64"
  have u: "unat ?x = 2 ^ 31 + 12345" by simp
  have bl: "bit_length (unat ?x) = 32"
    unfolding u by (rule bit_length_eq[where k = 31, simplified]) simp_all
  have ex: "log2_exact ?x"
    by (simp only: log2_exact_def np_log2_scenario bl) simp
  have dom: "2 ^ 31 \<le> unat v \<and> unat v < 2 ^ 63 \<and> log2_exact v" if "v \<in> set [?x]" for v
  proof -
    from that have "v = ?x" by simp
    with ex show ?thesis by simp
  qed
  have p: "(31::nat) \<le> 31" "(31::nat) < 64" by simp_all
  have n: "length (fst (([7], []) :: (u64 list list) message)) = length [?x]" by simp
  have v: "vpush stack_prim (h, t) (Array [x]) f q = (h, [x] # t)" if "length h = 1" for h t x f q
    using that by (simp add: stack_prim_def)
  have f: "(of_nat (unat ?x mod 2 ^ 31) :: u64) = 12345"
    "(of_nat ((unat ?x - 2 ^ (bit_length (unat ?x) - 1)) div 2 ^ 31) :: u64) = 0"
    "(of_nat (bit_length (unat ?x) - 32) :: u64) = 0"
    unfolding bl by simp_all
  note t = Benford64_fields[where xs = "[?x]" and m = "([7], [])",
      OF lifo_stack_prim[of 31] p n dom, unfolded list.map f v[of "[7]", simplified]]
  from t have "Benford64_push stack_prim ([7], []) (Array [?x]) = Inr ([7], [[0], [0], [12345]])"
    and "Benford64_pop stack_prim ([7], [[0], [0], [12345]]) = Inr (([7], []), Array [?x])"
    by blast+
  with ex show ?thesis by blast
qed

lemma np_log2_below_power: "np_log2_u64 (2 ^ 49 - 1) = 49"
proof -
  have "bit_length (2 ^ 49 - 1) = Suc 48" by (rule bit_length_eq) simp_all
  moreover have "bit_length 48 = Suc 5" by (rule bit_length_eq) simp_all
  moreover have "unat (2 ^ 49 - 1 :: u64) = 2 ^ 49 - 1" by simp
  ultimately show ?thesis by (simp add: np_log2_u64_def float64_of_nat_def Let_def)
qed

lemma benford_low_below_power: "benford_low (2 ^ 49 - 1) = 2 ^ 31 - 1"
  by (simp add: benford_low_def)

lemma benford_high_below_power: "benford_high (2 ^ 49 - 1) = 262143"
  by (simp add: benford_high_def np_log2_below_power[simplified])

lemma benford_delta_below_power: "benford_delta (2 ^ 49 - 1) = 18"
  by (simp add: benford_delta_def np_log2_below_power[simplified])

lemma benford_rebuild_below_power: "benford_rebuild 18 262143 (2 ^ 31 - 1) = 2 ^ 50 - 1"
  by (simp add: benford_rebuild_def)

lemmas benford_below_power = benford_low_below_power benford_high_below_power
  benford_delta_below_power benford_rebuild_below_power

text \<open>
  Claim C4.  The fields that \<^verbatim>\<open>Benford64\<close> codes, with \<open>bit_length\<close> the position of the
  leading bit of \<open>x\<close> (the reading under which the length deltas are \<open>0..31\<close> and pop
  rebuilds \<open>(1 << bit_length) | (high << 31) | low\<close>).  The claim holds on the lanes where
  \<^verbatim>\<open>np.uint64(np.log2(x))\<close> is that position (the theorem above), and not on the whole range:
  for \<open>x = 2^49 - 1\<close>, with leading bit 48, the float64 logarithm rounds up to 49, the
  leading 1 is not removed, and push codes the length 18 and the high bits 262143 at
  width 18 where the claim has the length 17 and the high bits 131071 at width 17; pop
  then rebuilds \<open>2^50 - 1\<close>.  This holds for every primitive that satisfies the LIFO
  contract and every message of one lane.
\<close>

theorem Benford64_fields_fail:
  fixes prim :: "'t vrans"
  assumes "lifo pmax prim" "31 \<le> pmax" "pmax < 64" "length (fst m) = 1"
  shows "Benford64_push prim m (Array [2 ^ 49 - 1]) =
           Inr (vpush prim (vpush prim (vpush prim m
                  (Array [2 ^ 31 - 1]) (Scalar 1) (Scalar 31))
                  (Array [262143]) (Scalar 1) (Array [18]))
                  (Array [18]) (Scalar 1) (Scalar 5)) \<and>
         Benford64_pop prim
              (vpush prim (vpush prim (vpush prim m
                  (Array [2 ^ 31 - 1]) (Scalar 1) (Scalar 31))
                  (Array [262143]) (Scalar 1) (Array [18]))
                  (Array [18]) (Scalar 1) (Scalar 5)) =
           Inr (m, Array [2 ^ 50 - 1]) \<and>
         bit_length (unat (2 ^ 49 - 1 :: u64)) - 1 - 31 = 17 \<and>
         (unat (2 ^ 49 - 1 :: u64) - 2 ^ (bit_length (unat (2 ^ 49 - 1 :: u64)) - 1)) div 2 ^ 31
           = 131071"
proof -
  have n: "length (fst m) = length [x]" for x :: u64
    using assms(4) by simp
  have q: "31 \<le> unat (np_log2_u64 (2 ^ 49 - 1)) \<and> unat (np_log2_u64 (2 ^ 49 - 1)) \<le> 62"
    by (simp only: np_log2_below_power) simp
  have r: "31 \<le> unat (np_log2_u64 v) \<and> unat (np_log2_u64 v) \<le> 62"
    if "v \<in> set [2 ^ 49 - 1]" for v
    using q that by (rule singleton_range)
  note a = Benford64_push_pop[where xs = "[2 ^ 49 - 1]" and m = m, OF assms(1,2,3) n,
      unfolded list.map benford_below_power]
  have a': "Benford64_push prim m (Array [2 ^ 49 - 1]) =
           Inr (vpush prim (vpush prim (vpush prim m
                  (Array [2 ^ 31 - 1]) (Scalar 1) (Scalar 31))
                  (Array [262143]) (Scalar 1) (Array [18]))
                  (Array [18]) (Scalar 1) (Scalar 5)) \<and>
         Benford64_pop prim
              (vpush prim (vpush prim (vpush prim m
                  (Array [2 ^ 31 - 1]) (Scalar 1) (Scalar 31))
                  (Array [262143]) (Scalar 1) (Array [18]))
                  (Array [18]) (Scalar 1) (Scalar 5)) =
           Inr (m, Array [2 ^ 50 - 1])"
    by (rule a) (rule r)
  have bl: "bit_length (2 ^ 49 - 1) = Suc 48" by (rule bit_length_eq) simp_all
  have u: "unat (2 ^ 49 - 1 :: u64) = 2 ^ 49 - 1" by simp
  have c: "bit_length (unat (2 ^ 49 - 1 :: u64)) - 1 - 31 = 17"
    "(unat (2 ^ 49 - 1 :: u64) - 2 ^ (bit_length (unat (2 ^ 49 - 1 :: u64)) - 1)) div 2 ^ 31
           = 131071"
    unfolding u bl by simp_all
  from a' c show ?thesis by (intro conjI) (rule conjunct1, assumption | rule conjunct2, assumption | assumption)+
qed

theorem Benford64_fields_fail_witness:
  "Benford64_push stack_prim ([7], []) (Array [2 ^ 49 - 1])
       = Inr ([7], [[18], [262143], [2 ^ 31 - 1]]) \<and>
   Benford64_pop stack_prim ([7], [[18], [262143], [2 ^ 31 - 1]])
       = Inr (([7], []), Array [2 ^ 50 - 1])"
proof -
  have h: "length (fst (([7], []) :: (u64 list list) message)) = 1" by simp
  have p: "(31::nat) \<le> 31" "(31::nat) < 64" by simp_all
  have v: "vpush stack_prim (h, t) (Array [x]) f q = (h, [x] # t)" if "length h = 1" for h t x f q
    using that by (simp add: stack_prim_def)
  note t = Benford64_fields_fail[OF lifo_stack_prim[of 31] p h, THEN conjunct1]
    Benford64_fields_fail[OF lifo_stack_prim[of 31] p h, THEN conjunct2, THEN conjunct1]
  show ?thesis
    using t by (simp only: v[of "[7]", simplified])
qed

section \<open>Cumulative buckets: the rebalanced table\<close>

text \<open>
  The entries of the table are prefix sums of the rebalanced \<^verbatim>\<open>int64\<close> frequencies, taken
  through float64 and read as \<^verbatim>\<open>uint64\<close>.  The lemmas below move between the machine
  words and the integers they stand for.
\<close>


lemma sint_of_int64:
  "- (2 ^ 63) \<le> k \<Longrightarrow> k < 2 ^ 63 \<Longrightarrow> sint (word_of_int k :: 64 word) = k"
  by (simp add: sint_sbintrunc' signed_take_bit_int_eq_self)

lemma uint_of_int64:
  "0 \<le> k \<Longrightarrow> k < 2 ^ 64 \<Longrightarrow> uint (word_of_int k :: 64 word) = k"
  by (simp add: uint_word_of_int_eq take_bit_int_eq_self)

lemma sum_list_word_of_int:
  "(sum_list ws :: 64 word) = word_of_int (sum_list (map sint ws))"
  by (induction ws) simp_all

lemma argmax_loop_bound:
  "best < i \<Longrightarrow> argmax_loop xs i best best_value < i + length xs"
proof (induction xs arbitrary: i best best_value)
  case Nil
  then show ?case by simp
next
  case (Cons x xs)
  have a: "argmax_loop xs (Suc i) i x < Suc i + length xs"
    by (rule Cons.IH) simp
  have b: "argmax_loop xs (Suc i) best best_value < Suc i + length xs"
    by (rule Cons.IH) (use Cons.prems in simp)
  from a b show ?case by simp
qed

lemma np_argmax_bound: "np_argmax xs = Inr k \<Longrightarrow> k < length xs"
  using argmax_loop_bound[of 0 1]
  by (cases xs) (auto simp: np_argmax_def)

lemma length_cumsum_from: "length (cumsum_from acc ws) = length ws"
  by (induction ws arbitrary: acc) simp_all

lemma cumsum_from_nth:
  "i < length ws \<Longrightarrow> cumsum_from acc ws ! i = acc + sum_list (take (Suc i) ws)"
proof (induction ws arbitrary: acc i)
  case Nil
  then show ?case by simp
next
  case (Cons w ws)
  then show ?case by (cases i) (simp_all add: add.assoc)
qed

lemma table_nth:
  "j \<le> length ws \<Longrightarrow> (0 # np_cumsum ws) ! j = sum_list (take j ws)"
  by (cases j) (simp_all add: np_cumsum_def cumsum_from_nth)

lemma sum_list_take_bounds:
  fixes qs :: "int list"
  assumes "\<And>q. q \<in> set qs \<Longrightarrow> 0 \<le> q"
  shows "0 \<le> sum_list (take j qs) \<and> sum_list (take j qs) \<le> sum_list qs"
proof -
  have "sum_list qs = sum_list (take j qs) + sum_list (drop j qs)"
    by (metis append_take_drop_id sum_list_append)
  moreover have "0 \<le> sum_list (drop j qs)"
    using assms by (intro sum_list_nonneg) (auto dest: in_set_dropD)
  moreover have "0 \<le> sum_list (take j qs)"
    using assms by (intro sum_list_nonneg) (auto dest: in_set_takeD)
  ultimately show ?thesis by linarith
qed

lemma uint_prefix_sum:
  fixes ws :: "64 word list"
  assumes "\<And>w. w \<in> set ws \<Longrightarrow> 0 \<le> sint w" "sum_list (map sint ws) < 2 ^ 64"
  shows "uint (sum_list (take j ws)) = sum_list (map sint (take j ws))"
proof -
  have "0 \<le> sum_list (take j (map sint ws)) \<and>
      sum_list (take j (map sint ws)) \<le> sum_list (map sint ws)"
    using assms(1) by (intro sum_list_take_bounds) auto
  then have "0 \<le> sum_list (map sint (take j ws))" "sum_list (map sint (take j ws)) < 2 ^ 64"
    using assms(2) by (simp_all add: take_map)
  then show ?thesis by (simp only: sum_list_word_of_int[of "take j ws"] uint_of_int64)
qed

lemma sum_list_update_int:
  fixes qs :: "int list"
  shows "k < length qs \<Longrightarrow> sum_list (qs[k := d]) = sum_list qs - qs ! k + d"
proof (induction qs arbitrary: k)
  case Nil
  then show ?case by simp
next
  case (Cons q qs)
  then show ?case by (cases k) simp_all
qed

lemma sint_zero_fix:
  fixes x :: "64 word"
  assumes "0 \<le> sint x"
  shows "sint (if x = 0 then 1 else x) = max 1 (sint x)"
proof (cases "x = 0")
  case True
  then show ?thesis by simp
next
  case False
  then have "sint x \<noteq> 0" by (simp add: signed_eq_0_iff)
  with assms have "1 \<le> sint x" by linarith
  with False show ?thesis by simp
qed

lemma float64_exact: "n \<le> 2 ^ 53 \<Longrightarrow> float64_of_nat n = n"
proof (cases "bit_length n \<le> 53")
  case True
  then show ?thesis by (simp add: float64_of_nat_def)
next
  case False
  assume n: "n \<le> 2 ^ 53"
  from False have pos: "0 < n" by (cases "n = 0") (simp_all add: bit_length_0)
  from bit_length_bounds[OF pos] have "2 ^ (bit_length n - 1) \<le> n" by simp
  moreover from False have "(2::nat) ^ 53 \<le> 2 ^ (bit_length n - 1)"
    by (intro power_increasing) auto
  ultimately have e: "n = 2 ^ 53" using n by linarith
  have "bit_length (2 ^ 53) = Suc 53" by (rule bit_length_eq) simp_all
  then show ?thesis unfolding e by (simp add: float64_of_nat_def Let_def)
qed

lemma uint64_via_float64_exact:
  assumes "uint c \<le> 2 ^ 53"
  shows "uint64_via_float64 c = c"
proof -
  have "sint (word_of_int (uint c) :: 64 word) = uint c"
  proof (rule sint_of_int64)
    have "0 \<le> uint c" by simp
    moreover have "- (2 ^ 63) \<le> (0::int)" by simp
    ultimately show "- (2 ^ 63) \<le> uint c" by (rule order_trans[rotated])
    show "uint c < 2 ^ 63" using assms by simp
  qed
  then have s: "sint c = uint c" by simp
  have "int (unat c) \<le> int (2 ^ 53)" using assms by simp
  then have "unat c \<le> 2 ^ 53" by (simp only: of_nat_le_iff)
  then have "float64_of_nat (unat c) = unat c" by (rule float64_exact)
  then show ?thesis by (simp add: uint64_via_float64_def s)
qed

lemma cumulative_buckets_int:
  assumes res: "cumulative_buckets_from_probs rounded precision = Inr table"
    and nonneg: "\<And>x. x \<in> set rounded \<Longrightarrow> 0 \<le> sint x"
    and prec: "precision \<le> 53"
    and nowrap: "sum_list (map (\<lambda>x. max 1 (sint x)) rounded) < 2 ^ 63"
  shows "\<exists>qs. length qs = length rounded \<and> (\<forall>q\<in>set qs. 1 \<le> q) \<and> sum_list qs = 2 ^ precision \<and>
           length table = Suc (length rounded) \<and>
           (\<forall>j\<le>length rounded. uint (table ! j) = sum_list (take j qs))"
proof -
  define probs where "probs = map (\<lambda>x. if x = 0 then 1 else x) rounded"
  define ps where "ps = map sint probs"
  have ps_eq: "ps = map (\<lambda>x. max 1 (sint x)) rounded"
    unfolding ps_def probs_def using nonneg by (simp add: sint_zero_fix)
  have ps1: "1 \<le> q" if "q \<in> set ps" for q using that unfolding ps_eq by auto
  have ps0: "0 \<le> q" if "q \<in> set ps" for q using ps1[OF that] by simp
  define S where "S = sum_list ps"
  have S: "S < 2 ^ 63" using nowrap by (simp add: S_def ps_eq)
  from res obtain k where k: "np_argmax probs = Inr k"
    by (auto simp: cumulative_buckets_from_probs_def probs_def Let_def split: sum.splits)
  define lowered where "lowered = probs ! k + (push_bit precision 1 - sum_list probs)"
  from res k have pass: "\<not> word_sle lowered 0"
    and table0: "table = 0 # map uint64_via_float64 (np_cumsum (probs[k := lowered]))"
    by (auto simp: cumulative_buckets_from_probs_def probs_def[symmetric] lowered_def Let_def
        split: if_splits)
  have kl: "k < length probs" using k by (rule np_argmax_bound)
  define M where "M = ps ! k"
  have Mset: "M \<in> set ps" using kl by (simp add: M_def ps_def)
  have M1: "1 \<le> M" using ps1[OF Mset] .
  have MS: "M \<le> S" unfolding S_def using Mset ps0 by (rule member_le_sum_list)
  define D where "D = M + 2 ^ precision - S"
  have p53: "(2::int) ^ precision \<le> 2 ^ 53" using prec by (intro power_increasing) auto
  then have p2: "(2::int) ^ precision \<le> 2 ^ 62" by simp
  have p1: "(1::int) \<le> 2 ^ precision" by simp
  have lw: "lowered = word_of_int D"
  proof -
    have "probs ! k = word_of_int M" using kl by (simp add: M_def ps_def)
    moreover have "sum_list probs = word_of_int S"
      by (simp add: S_def ps_def sum_list_word_of_int)
    moreover have "(push_bit precision 1 :: 64 word) = word_of_int (2 ^ precision)" by simp
    ultimately show ?thesis by (simp add: lowered_def D_def)
  qed
  have n63: "(2::int) ^ 63 = 9223372036854775808" "(2::int) ^ 62 = 4611686018427387904"
    by simp_all
  have Db: "- (2 ^ 63) \<le> D" "D < 2 ^ 63"
    using M1 MS S p1 p2 unfolding D_def n63 by linarith+
  have sD: "sint lowered = D" unfolding lw using Db by (rule sint_of_int64)
  have D1: "1 \<le> D" using pass by (simp add: word_sle_eq sD)
  define qs where "qs = ps[k := D]"
  have qs_map: "map sint (probs[k := lowered]) = qs"
    by (simp add: qs_def ps_def map_update sD)
  have qs1: "1 \<le> q" if "q \<in> set qs" for q
    using that D1 ps1 unfolding qs_def by (auto dest!: set_update_subset_insert[THEN subsetD])
  have qsum: "sum_list qs = 2 ^ precision"
    using kl by (simp add: qs_def sum_list_update_int ps_def D_def S_def M_def)
  have w0: "0 \<le> sint w" if "w \<in> set (probs[k := lowered])" for w
  proof -
    from that have "sint w \<in> set qs" unfolding qs_map[symmetric] by simp
    from qs1[OF this] show ?thesis by simp
  qed
  have tot: "sum_list (map sint (probs[k := lowered])) < 2 ^ 64"
    using p2 by (simp add: qs_map qsum)
  define raw where "raw = 0 # np_cumsum (probs[k := lowered])"
  have raw_nth: "uint (raw ! j) = sum_list (take j qs)" if "j \<le> length rounded" for j
  proof -
    have "j \<le> length (probs[k := lowered])" using that by (simp add: probs_def)
    then have "raw ! j = sum_list (take j (probs[k := lowered]))"
      unfolding raw_def by (rule table_nth)
    then show ?thesis
      using uint_prefix_sum[OF w0 tot, of j] by (simp add: take_map flip: qs_map)
  qed
  have q0: "0 \<le> q" if "q \<in> set qs" for q using qs1[OF that] by simp
  have exact: "uint64_via_float64 c = c" if "c \<in> set (np_cumsum (probs[k := lowered]))" for c
  proof -
    from that obtain i where i: "i < length (np_cumsum (probs[k := lowered]))"
      "c = np_cumsum (probs[k := lowered]) ! i"
      by (auto simp: in_set_conv_nth)
    then have "Suc i \<le> length rounded"
      by (simp add: np_cumsum_def length_cumsum_from probs_def)
    from raw_nth[OF this] i(2) have "uint c = sum_list (take (Suc i) qs)"
      by (simp add: raw_def)
    also have "\<dots> \<le> sum_list qs" using sum_list_take_bounds[of qs "Suc i"] q0 by blast
    finally have "uint c \<le> 2 ^ 53" using qsum p53 by simp
    then show ?thesis by (rule uint64_via_float64_exact)
  qed
  have table: "table = raw"
    unfolding table0 raw_def using exact by (simp add: map_idI)
  have nth: "uint (table ! j) = sum_list (take j qs)" if "j \<le> length rounded" for j
    unfolding table using that by (rule raw_nth)
  have "length qs = length rounded" by (simp add: qs_def ps_def probs_def)
  moreover have "length table = Suc (length rounded)"
    by (simp add: table raw_def np_cumsum_def length_cumsum_from probs_def)
  ultimately show ?thesis using qs1 qsum nth by blast
qed

text \<open>
  Up to precision 53 every prefix sum is a float64, and the table is a partition.  Let
  \<^term>\<open>rounded\<close> be the frequencies \<^verbatim>\<open>np.rint(probs * (1 << precision)).astype('int64')\<close> of a
  vector with non-negative entries, with \<^term>\<open>precision \<le> 53\<close> and the zero-corrected
  frequencies summing to less than \<open>2 ^ 63\<close>, so that the \<^verbatim>\<open>int64\<close> sums do not wrap.
  Whenever the rebalance assertion passes, the returned table has one entry more than the
  vector, starts at \<open>0\<close>, ends at \<open>2 ^ precision\<close>, is non-decreasing, every adjacent
  difference is at least \<open>1\<close>, and the bucket widths sum to exactly \<open>2 ^ precision\<close>.
\<close>

theorem cumulative_buckets_partition:
  assumes res: "cumulative_buckets_from_probs rounded precision = Inr table"
    and nonneg: "\<forall>x\<in>set rounded. 0 \<le> sint x"
    and prec: "precision \<le> 53"
    and nowrap: "sum_list (map (\<lambda>x. max 1 (sint x)) rounded) < 2 ^ 63"
  shows "length table = length rounded + 1 \<and>
         table ! 0 = 0 \<and>
         uint (last table) = 2 ^ precision \<and>
         sorted (map uint table) \<and>
         (\<forall>i<length rounded. uint (table ! i) + 1 \<le> uint (table ! Suc i)) \<and>
         (\<Sum>i<length rounded. uint (table ! Suc i) - uint (table ! i)) = 2 ^ precision"
proof -
  from nonneg have nn: "\<And>x. x \<in> set rounded \<Longrightarrow> 0 \<le> sint x" by blast
  from cumulative_buckets_int[OF res nn prec nowrap]
  obtain qs where len: "length qs = length rounded"
    and q1: "\<forall>q\<in>set qs. 1 \<le> q"
    and total: "sum_list qs = 2 ^ precision"
    and tl: "length table = Suc (length rounded)"
    and nth: "\<forall>j\<le>length rounded. uint (table ! j) = sum_list (take j qs)"
    by blast
  have first: "table ! 0 = 0"
  proof -
    from nth have "uint (table ! 0) = 0" by simp
    then show ?thesis by (simp add: unsigned_eq_0_iff)
  qed
  have top: "uint (table ! length rounded) = 2 ^ precision"
    using nth len total by simp
  have "table \<noteq> []" using tl by auto
  then have "last table = table ! length rounded"
    by (simp add: last_conv_nth tl)
  with top have lst: "uint (last table) = 2 ^ precision" by simp
  have step: "uint (table ! i) + 1 \<le> uint (table ! Suc i)" if i: "i < length rounded" for i
  proof -
    from i len have "take (Suc i) qs = take i qs @ [qs ! i]"
      by (simp add: take_Suc_conv_app_nth)
    moreover from i len q1 have "1 \<le> qs ! i" by simp
    ultimately have "sum_list (take i qs) + 1 \<le> sum_list (take (Suc i) qs)" by simp
    with nth i show ?thesis by simp
  qed
  have srt: "sorted (map uint table)"
  proof (subst sorted_iff_nth_Suc, intro allI impI)
    fix i assume "Suc i < length (map uint table)"
    then have i: "i < length rounded" by (simp add: tl)
    from step[OF i] i show "map uint table ! i \<le> map uint table ! Suc i"
      by (simp add: tl)
  qed
  have "(\<Sum>i<length rounded. uint (table ! Suc i) - uint (table ! i))
      = uint (table ! length rounded) - uint (table ! 0)"
    by (rule sum_lessThan_telescope)
  with top first have widths:
    "(\<Sum>i<length rounded. uint (table ! Suc i) - uint (table ! i)) = 2 ^ precision"
    by simp
  from tl first lst srt step widths show ?thesis by simp
qed

theorem cumulative_buckets_partition_witness:
  "cumulative_buckets_from_probs [0, 200, 56, 3] 8 = Inr [0, 1, 197, 253, 256] \<and>
   uint (last [0, 1, 197, 253, 256 :: u64]) = 2 ^ 8 \<and>
   sorted (map uint [0, 1, 197, 253, 256 :: u64]) \<and>
   (\<Sum>i<length [0, 200, 56, 3 :: u64].
       uint ([0, 1, 197, 253, 256 :: u64] ! Suc i) - uint ([0, 1, 197, 253, 256 :: u64] ! i)) = 2 ^ 8"
proof -
  have e: "cumulative_buckets_from_probs [0, 200, 56, 3] 8 = Inr [0, 1, 197, 253, 256]"
    by (simp add: cumulative_buckets_from_probs_def np_argmax_def np_cumsum_def Let_def
        word_sle_eq word_sless_alt uint64_via_float64_exact)
  have h: "\<forall>x\<in>set [0, 200, 56, 3 :: u64]. 0 \<le> sint x" by simp
  have p: "(8::nat) \<le> 53" by simp
  have n: "sum_list (map (\<lambda>x. max 1 (sint x)) [0, 200, 56, 3 :: u64]) < 2 ^ 63" by simp
  from cumulative_buckets_partition[OF e h p n] e show ?thesis by blast
qed

lemma float64_tie: "float64_of_nat (2 ^ 53 + 1) = 2 ^ 53"
proof -
  have "bit_length (2 ^ 53 + 1) = Suc 53" by (rule bit_length_eq) simp_all
  then show ?thesis by (simp add: float64_of_nat_def Let_def)
qed

lemma float64_2p54: "float64_of_nat (2 ^ 54) = 2 ^ 54"
proof -
  have "bit_length (2 ^ 54) = Suc 54" by (rule bit_length_eq) simp_all
  then show ?thesis by (simp add: float64_of_nat_def Let_def)
qed

text \<open>
  Claim C2.  The table of a vector with non-negative entries on which the rebalance
  assertion passes starts at 0, ends at \<open>2 ^ precision\<close>, is non-decreasing and has
  every adjacent difference at least 1.  This holds up to precision 53 (the theorem
  above) and not for every precision: the frequencies \<open>[2^53, 1, 2^53 + 2]\<close> at precision
  54 (the probabilities \<open>[0.5, 2^-54, 0.5 + 2^-53]\<close>) pass the assertion, the maximum is
  lowered to \<open>2^53 - 1\<close>, the cumulative sums are \<open>2^53\<close>, \<open>2^53 + 1\<close> and \<open>2^54\<close>, and the
  float64 of \<open>2^53 + 1\<close> is \<open>2^53\<close>: the second bucket of the returned table has width 0.
\<close>

theorem cumulative_buckets_zero_width:
  "cumulative_buckets_from_probs [2 ^ 53, 1, 2 ^ 53 + 2] 54 =
     Inr [0, 2 ^ 53, 2 ^ 53, 2 ^ 54]"
proof -
  have a: "np_argmax [2 ^ 53, 1, 2 ^ 53 + 2 :: 64 word] = Inr 2"
    by (simp add: np_argmax_def word_sless_alt)
  have l: "(2 ^ 53 + 2 :: 64 word) + (push_bit 54 1 - sum_list [2 ^ 53, 1, 2 ^ 53 + 2])
      = 2 ^ 53 - 1"
    by simp
  have g: "\<not> word_sle (2 ^ 53 - 1 :: 64 word) 0" by (simp add: word_sle_eq)
  have c: "np_cumsum [2 ^ 53, 1, 2 ^ 53 - 1 :: 64 word] = [2 ^ 53, 2 ^ 53 + 1, 2 ^ 54]"
    by (simp add: np_cumsum_def)
  have f1: "uint64_via_float64 (2 ^ 53) = 2 ^ 53"
    by (rule uint64_via_float64_exact) simp
  have f2: "uint64_via_float64 (2 ^ 53 + 1) = 2 ^ 53"
    using float64_tie by (simp add: uint64_via_float64_def)
  have f3: "uint64_via_float64 (2 ^ 54) = 2 ^ 54"
    using float64_2p54 by (simp add: uint64_via_float64_def)
  have z: "(2 ^ 53 :: 64 word) \<noteq> 0" "(1 :: 64 word) \<noteq> 0" "(2 ^ 53 + 2 :: 64 word) \<noteq> 0"
    by simp_all
  have m: "map (\<lambda>x. if x = 0 then 1 else x) [2 ^ 53, 1, 2 ^ 53 + 2 :: 64 word]
      = [2 ^ 53, 1, 2 ^ 53 + 2]"
    using z by simp
  have u: "[2 ^ 53, 1, 2 ^ 53 + 2 :: 64 word][2 := 2 ^ 53 - 1] = [2 ^ 53, 1, 2 ^ 53 - 1]"
    by simp
  have n: "[2 ^ 53, 1, 2 ^ 53 + 2 :: 64 word] ! 2 = 2 ^ 53 + 2" by simp
  have "cumulative_buckets_from_probs [2 ^ 53, 1, 2 ^ 53 + 2] 54 =
      Inr (0 # map uint64_via_float64 (np_cumsum [2 ^ 53, 1, 2 ^ 53 - 1]))"
    by (simp only: cumulative_buckets_from_probs_def Let_def m a sum.case n l g if_False u)
  then show ?thesis by (simp only: c list.map f1 f2 f3)
qed

section \<open>AutoRegressive: decoding order and round trip\<close>

lemma length_ar_data: "length (ar_data data idxs buf) = length buf"
  by (induction idxs arbitrary: buf) simp_all

lemma ar_data_append:
  "ar_data data (pre @ post) buf = ar_data data post (ar_data data pre buf)"
  by (induction pre arbitrary: buf) simp_all

lemma ar_data_nth:
  "i < length buf \<Longrightarrow>
     ar_data data idxs buf ! i = (if i \<in> set idxs then data ! i else buf ! i)"
proof (induction idxs arbitrary: buf)
  case Nil
  then show ?case by simp
next
  case (Cons idx rest)
  then show ?case by (simp add: nth_list_update)
qed

lemma ar_data_full:
  assumes "length buf = length data" "{..<length data} \<subseteq> set idxs"
  shows "ar_data data idxs buf = data"
proof (rule nth_equalityI)
  show "length (ar_data data idxs buf) = length data" using assms(1) by (simp add: length_ar_data)
  fix i assume "i < length (ar_data data idxs buf)"
  then have i: "i < length buf" by (simp add: length_ar_data)
  with assms have "i \<in> set idxs" by auto
  with i show "ar_data data idxs buf ! i = data ! i" by (simp add: ar_data_nth)
qed

lemma causal_append:
  "causal param_fn data (pre @ post) buf ps \<longleftrightarrow>
     causal param_fn data pre buf ps \<and>
     causal param_fn data post (ar_data data pre buf) (ar_params param_fn data pre buf ps)"
  by (induction pre arbitrary: buf ps) auto

lemma push_loop_append:
  "AutoRegressive_push_loop elem_codec data all_params (xs @ ys) message =
     (case AutoRegressive_push_loop elem_codec data all_params xs message of
        Inl e \<Rightarrow> Inl e
      | Inr message1 \<Rightarrow> AutoRegressive_push_loop elem_codec data all_params ys message1)"
  by (induction xs arbitrary: message) (auto split: sum.splits)

lemma push_loop_closed:
  assumes "\<forall>idx\<in>set idxs. idx < length data \<and> idx < length full \<and>
             roundtrips (elem_codec (full ! idx) idx) M {data ! idx}"
    and "m \<in> M"
  shows "\<exists>m'\<in>M. AutoRegressive_push_loop elem_codec data (NdArray full) idxs m = Inr m'"
  using assms
proof (induction idxs arbitrary: m)
  case Nil
  then show ?case by simp
next
  case (Cons idx rest)
  from Cons.prems have rt: "roundtrips (elem_codec (full ! idx) idx) M {data ! idx}"
    and b: "idx < length data" "idx < length full" by simp_all
  from rt Cons.prems(2) obtain m1 where m1: "m1 \<in> M"
    "push (elem_codec (full ! idx) idx) m (data ! idx) = Inr m1"
    unfolding roundtrips_def by blast
  from Cons.IH[OF _ m1(1)] Cons.prems(1)
  obtain m' where "m' \<in> M" "AutoRegressive_push_loop elem_codec data (NdArray full) rest m1 = Inr m'"
    by auto
  with m1 b show ?case by simp
qed

lemma pop_loop_prefix:
  assumes "\<forall>idx\<in>set pre. idx < length data \<and>
             roundtrips (elem_codec (param_fn data None ! idx) idx) M {data ! idx}"
    and "causal param_fn data pre buf ps"
    and "length buf = length data"
    and "mk \<in> M"
  shows "\<exists>m'\<in>M. AutoRegressive_push_loop elem_codec data (NdArray (param_fn data None)) (rev pre) mk
              = Inr m' \<and>
           AutoRegressive_pop_loop param_fn elem_codec (pre @ post) (m', buf, ps) =
           AutoRegressive_pop_loop param_fn elem_codec post
             (mk, ar_data data pre buf, ar_params param_fn data pre buf ps)"
  using assms(1-3)
proof (induction pre arbitrary: buf ps)
  case Nil
  with assms(4) show ?case by simp
next
  case (Cons idx rest)
  let ?full = "param_fn data None"
  let ?ps1 = "param_fn buf (Some (ps, idx))"
  let ?buf1 = "buf[idx := data ! idx]"
  from Cons.prems have rt: "roundtrips (elem_codec (?full ! idx) idx) M {data ! idx}"
    and b: "idx < length data" "idx < length ?ps1" "idx < length ?full"
    and eq: "?ps1 ! idx = ?full ! idx"
    and c: "causal param_fn data rest ?buf1 ?ps1" by simp_all
  from Cons.prems have r: "\<forall>idx\<in>set rest. idx < length data \<and>
      roundtrips (elem_codec (?full ! idx) idx) M {data ! idx}" by simp
  have l: "length ?buf1 = length data" using Cons.prems(3) by simp
  from Cons.IH[OF r c l] obtain m1 where m1: "m1 \<in> M"
    "AutoRegressive_push_loop elem_codec data (NdArray ?full) (rev rest) mk = Inr m1"
    "AutoRegressive_pop_loop param_fn elem_codec (rest @ post) (m1, ?buf1, ?ps1) =
       AutoRegressive_pop_loop param_fn elem_codec post
         (mk, ar_data data rest ?buf1, ar_params param_fn data rest ?buf1 ?ps1)"
    by blast
  from rt m1(1) obtain m2 where m2: "m2 \<in> M"
    "push (elem_codec (?full ! idx) idx) m1 (data ! idx) = Inr m2"
    "pop (elem_codec (?full ! idx) idx) m2 = Inr (m1, data ! idx)"
    unfolding roundtrips_def by blast
  have p: "AutoRegressive_push_loop elem_codec data (NdArray ?full) (rev (idx # rest)) mk = Inr m2"
    using m1(2) m2(2) b by (simp add: push_loop_append)
  have q: "AutoRegressive_pop_loop param_fn elem_codec ((idx # rest) @ post) (m2, buf, ps) =
      AutoRegressive_pop_loop param_fn elem_codec (rest @ post) (m1, ?buf1, ?ps1)"
    using b eq m2(3) Cons.prems(3) by (simp add: Let_def)
  from m2(1) p q m1(3) show ?case by auto
qed

lemma ar_params_append:
  "ar_params param_fn data (pre @ post) buf ps =
     ar_params param_fn data post (ar_data data pre buf) (ar_params param_fn data pre buf ps)"
  by (induction pre arbitrary: buf ps) simp_all

lemma causal_bounds:
  "causal param_fn data idxs buf ps \<Longrightarrow> \<forall>idx\<in>set idxs. idx < length (param_fn data None)"
  by (induction idxs arbitrary: buf ps) auto

text \<open>
  Claim C7.  Let \<open>m'\<close> be the message that push produces from \<open>m\<close> and \<open>data\<close> with the
  parameters \<^verbatim>\<open>param_fn(data)\<close>, pushing the elements in the reverse of \<open>elem_idxs\<close>.  Pop on
  \<open>m'\<close> visits the indices in the order of \<open>elem_idxs\<close>: whenever
  \<open>elem_idxs = pre @ idx # post\<close>, it reaches \<open>idx\<close> with the data buffer holding exactly the
  elements at \<open>pre\<close> (zero elsewhere) and the running parameter buffer, calls \<^verbatim>\<open>param_fn\<close> on
  these, decodes \<open>data[idx]\<close>, writes it into the buffer, and goes on with \<open>post\<close> on
  the message on which only the elements at \<open>post\<close> are pushed.  It returns \<open>m\<close> and the
  elements decoded, which is \<open>data\<close> when \<open>elem_idxs\<close> covers every position.  The
  hypotheses: the indices are positions of \<open>data\<close>, the parameter of an element depends
  only on the elements decoded before it (\<open>causal\<close>), and the codec of each element
  round-trips on its value.  The witness is the example of the claim, \<open>data = [1, 2, 3]\<close>
  with the parameter of element \<open>i\<close> the sum of \<open>data[0:i]\<close>.
\<close>

theorem AutoRegressive_roundtrip:
  assumes m: "m \<in> M"
    and rt: "\<forall>idx\<in>set elem_idxs. idx < length data \<and>
               roundtrips (elem_codec (param_fn data None ! idx) idx) M {data ! idx}"
    and c: "causal param_fn data elem_idxs (replicate (length data) 0) (replicate params_shape 0)"
  shows "\<exists>m'\<in>M.
           AutoRegressive_push param_fn elem_idxs elem_codec m data PyNone = Inr m' \<and>
           AutoRegressive_pop param_fn (length data) params_shape elem_idxs elem_codec m' =
             Inr (m, ar_data data elem_idxs (replicate (length data) 0)) \<and>
           ({..<length data} \<subseteq> set elem_idxs \<longrightarrow>
              AutoRegressive_pop param_fn (length data) params_shape elem_idxs elem_codec m' =
                Inr (m, data)) \<and>
           (\<forall>pre idx post. elem_idxs = pre @ idx # post \<longrightarrow>
              (\<exists>mk\<in>M.
                 AutoRegressive_push_loop elem_codec data (NdArray (param_fn data None)) (rev post) m
                   = Inr mk \<and>
                 AutoRegressive_pop param_fn (length data) params_shape elem_idxs elem_codec m' =
                   AutoRegressive_pop_loop param_fn elem_codec post
                     (mk,
                      (ar_data data pre (replicate (length data) 0))[idx := data ! idx],
                      param_fn (ar_data data pre (replicate (length data) 0))
                        (Some (ar_params param_fn data pre (replicate (length data) 0)
                                 (replicate params_shape 0), idx)))))"
proof -
  let ?full = "param_fn data None"
  let ?buf = "replicate (length data) (0 :: u64)"
  let ?ps = "replicate params_shape (0 :: 'b)"
  let ?push = "AutoRegressive_push_loop elem_codec data (NdArray ?full)"
  let ?pop = "AutoRegressive_pop_loop param_fn elem_codec"
  have l: "length ?buf = length data" by simp
  have rt': "\<forall>idx\<in>set idxs. idx < length data \<and>
      roundtrips (elem_codec (?full ! idx) idx) M {data ! idx}" if "set idxs \<subseteq> set elem_idxs" for idxs
    using rt that by blast
  note prefix = pop_loop_prefix[where elem_codec = elem_codec and param_fn = param_fn
      and data = data and M = M and buf = ?buf and ps = ?ps]
  from prefix[where pre = elem_idxs and post = "[]" and mk = m, OF rt c l m]
  obtain m' where m': "m' \<in> M" "?push (rev elem_idxs) m = Inr m'"
    "?pop elem_idxs (m', ?buf, ?ps) = Inr (m, ar_data data elem_idxs ?buf)"
    by auto
  have push: "AutoRegressive_push param_fn elem_idxs elem_codec m data PyNone = Inr m'"
    using m'(2) by (simp add: AutoRegressive_push_def)
  have pop: "AutoRegressive_pop param_fn (length data) params_shape elem_idxs elem_codec m' =
      Inr (m, ar_data data elem_idxs ?buf)"
    using m'(3) by (simp add: AutoRegressive_pop_def)
  have full: "AutoRegressive_pop param_fn (length data) params_shape elem_idxs elem_codec m' =
      Inr (m, data)" if "{..<length data} \<subseteq> set elem_idxs"
    using pop ar_data_full[OF l that] by simp
  have order: "\<exists>mk\<in>M. ?push (rev post) m = Inr mk \<and>
      AutoRegressive_pop param_fn (length data) params_shape elem_idxs elem_codec m' =
        ?pop post (mk, (ar_data data pre ?buf)[idx := data ! idx],
          param_fn (ar_data data pre ?buf) (Some (ar_params param_fn data pre ?buf ?ps, idx)))"
    if e: "elem_idxs = pre @ idx # post" for pre idx post
  proof -
    have e': "elem_idxs = (pre @ [idx]) @ post" using e by simp
    have "\<forall>i\<in>set post. i < length data \<and> i < length ?full \<and>
        roundtrips (elem_codec (?full ! i) i) M {data ! i}"
      using rt causal_bounds[OF c] e by simp
    then have "\<forall>i\<in>set (rev post). i < length data \<and> i < length ?full \<and>
        roundtrips (elem_codec (?full ! i) i) M {data ! i}" by simp
    from push_loop_closed[where elem_codec = elem_codec and data = data and full = ?full
        and M = M and idxs = "rev post" and m = m, OF this m]
    obtain mk where mk: "mk \<in> M" "?push (rev post) m = Inr mk" by blast
    have c1: "causal param_fn data (pre @ [idx]) ?buf ?ps"
      using c unfolding e' causal_append by blast
    have r1: "\<forall>i\<in>set (pre @ [idx]). i < length data \<and>
        roundtrips (elem_codec (?full ! i) i) M {data ! i}"
      using rt e by simp
    from prefix[where pre = "pre @ [idx]" and post = post and mk = mk, OF r1 c1 l mk(1)]
    obtain m2 where m2: "?push (rev (pre @ [idx])) mk = Inr m2"
      "?pop ((pre @ [idx]) @ post) (m2, ?buf, ?ps) =
         ?pop post (mk, ar_data data (pre @ [idx]) ?buf, ar_params param_fn data (pre @ [idx]) ?buf ?ps)"
      by blast
    have "?push (rev elem_idxs) m = Inr m2"
      unfolding e' rev_append[of "pre @ [idx]" post] push_loop_append using mk(2) m2(1) by simp
    with m'(2) have "m2 = m'" by simp
    with m2(2) have "?pop elem_idxs (m', ?buf, ?ps) =
        ?pop post (mk, (ar_data data pre ?buf)[idx := data ! idx],
          param_fn (ar_data data pre ?buf) (Some (ar_params param_fn data pre ?buf ?ps, idx)))"
      unfolding e'[symmetric] by (simp add: ar_data_append ar_params_append)
    with mk show ?thesis by (auto simp: AutoRegressive_pop_def)
  qed
  from m'(1) push pop full order show ?thesis by blast
qed

lemma roundtrips_mono: "roundtrips c M S \<Longrightarrow> S' \<subseteq> S \<Longrightarrow> roundtrips c M S'"
  unfolding roundtrips_def by blast

lemma symbol_ok_shift:
  assumes "unat (s + p) < 2 ^ 8"
  shows "symbol_ok 31 1 (\<lambda>s. (Array [s + p], Scalar 1)) (\<lambda>cf. nd_at cf 0 - p) (Scalar 8) s"
proof -
  have "cfs ! 0 - p = s" if "cf_in_interval 1 (Array [s + p]) cfs (Scalar 1)" for cfs
  proof -
    from that have "unat (cfs ! 0) = unat (s + p)" by (simp add: cf_in_interval_def)
    then have "cfs ! 0 = s + p" by (simp only: word_unat_eq_iff)
    then show ?thesis by simp
  qed
  moreover have "interval_ok 31 1 (Array [s + p]) (Scalar 1) (Scalar 8)"
    using assms by (simp add: interval_ok_def shaped_def)
  ultimately show ?thesis by (simp add: symbol_ok_def)
qed

lemma shift_codec_roundtrips:
  assumes "unat (s + p) < 2 ^ 8"
  shows "roundtrips (shift_codec stack_prim p idx) {m. length (fst m) = 1} {s}"
proof -
  have "roundtrips (shift_codec stack_prim p idx) {m. length (fst m) = 1}
      {s. symbol_ok 31 1 (\<lambda>s. (Array [s + p], Scalar 1)) (\<lambda>cf. nd_at cf 0 - p) (Scalar 8) s}"
    unfolding shift_codec_def by (rule NonUniform_roundtrips[OF lifo_stack_prim]) simp
  moreover have "{s} \<subseteq>
      {s. symbol_ok 31 1 (\<lambda>s. (Array [s + p], Scalar 1)) (\<lambda>cf. nd_at cf 0 - p) (Scalar 8) s}"
    using symbol_ok_shift[OF assms] by blast
  ultimately show ?thesis by (rule roundtrips_mono)
qed

theorem AutoRegressive_roundtrip_witness:
  "AutoRegressive_push prefix_sum_params [0, 1, 2] (shift_codec stack_prim) ([5], [])
       [1, 2, 3] PyNone = Inr ([5], [[1], [3], [6]]) \<and>
   AutoRegressive_pop prefix_sum_params 3 3 [0, 1, 2] (shift_codec stack_prim)
       ([5], [[1], [3], [6]]) = Inr (([5], []), [1, 2, 3])"
proof -
  let ?M = "{m :: (u64 list list) message. length (fst m) = 1}"
  let ?data = "[1, 2, 3] :: u64 list"
  have p: "prefix_sum_params xs known = [0, xs ! 0, xs ! 0 + xs ! 1]" if "length xs = 3"
    for xs :: "u64 list" and known
  proof -
    from that obtain a b c where "xs = [a, b, c]"
      by (cases xs; cases "tl xs"; cases "tl (tl xs)") auto
    then show ?thesis
      by (simp add: prefix_sum_params_def upt_rec[of 0] upt_rec[of 1] upt_rec[of 2])
  qed
  have e: "AutoRegressive_push prefix_sum_params [0, 1, 2] (shift_codec stack_prim) ([5], [])
      ?data PyNone = Inr ([5], [[1], [3], [6]])"
    by (simp add: AutoRegressive_push_def p shift_codec_def NonUniform_def NonUniform_push_def
        stack_prim_def)
  have m: "([5], []) \<in> ?M" by simp
  have rt: "\<forall>idx\<in>set [0, 1, 2]. idx < length ?data \<and>
      roundtrips (shift_codec stack_prim (prefix_sum_params ?data None ! idx) idx) ?M
        {?data ! idx}"
    by (simp add: p shift_codec_roundtrips[unfolded One_nat_def])
  have c: "causal prefix_sum_params ?data [0, 1, 2] (replicate (length ?data) 0) (replicate 3 0)"
    by (simp add: p numeral_3_eq_3)
  have f: "{..<length ?data} \<subseteq> set [0, 1, 2]" by (auto simp: less_Suc_eq numeral_3_eq_3)
  from AutoRegressive_roundtrip[where M = ?M and param_fn = prefix_sum_params
      and elem_codec = "shift_codec stack_prim" and data = ?data and elem_idxs = "[0, 1, 2]"
      and m = "([5], [])" and params_shape = 3, OF m rt c] f
  obtain m' where "AutoRegressive_push prefix_sum_params [0, 1, 2] (shift_codec stack_prim)
      ([5], []) ?data PyNone = Inr m'"
    "AutoRegressive_pop prefix_sum_params (length ?data) 3 [0, 1, 2] (shift_codec stack_prim) m'
       = Inr (([5], []), ?data)"
    by blast
  moreover have "length ?data = 3" by simp
  ultimately show ?thesis using e by (simp only: sum.inject)
qed

section \<open>Reshaping the head: growing and shrinking back\<close>













lemma view_slice_1: "view_update [x] (slice_to 1) =
    Inr ([x], \<lambda>subhead. fold (\<lambda>(i, v) h. h[i := v]) (zip [0] subhead) [x])"
  by (simp add: view_update_def slice_to_def)


lemma np_log2_grown: "np_log2_u64 (2 ^ 31 + 7) = 31"
proof -
  have "bit_length (2 ^ 31 + 7) = Suc 31" by (rule bit_length_eq) simp_all
  moreover have "bit_length 31 = Suc 4" by (rule bit_length_eq) simp_all
  moreover have "unat (2 ^ 31 + 7 :: u64) = 2 ^ 31 + 7" by simp
  ultimately show ?thesis by (simp add: np_log2_u64_def float64_of_nat_def Let_def)
qed

lemma Benford64_push_grown:
  "Benford64_push stack_prim ([h], []) (Array [2 ^ 31 + 7]) = Inr ([h], [[0], [0], [7]])"
proof -
  have r: "31 \<le> unat (np_log2_u64 v) \<and> unat (np_log2_u64 v) \<le> 62"
    if "v \<in> set [2 ^ 31 + 7]" for v
    using that by (simp add: np_log2_grown[simplified])
  have f: "benford_low (2 ^ 31 + 7) = 7" "benford_high (2 ^ 31 + 7) = 0"
    "benford_delta (2 ^ 31 + 7) = 0"
    by (simp_all add: benford_low_def benford_high_def benford_delta_def np_log2_grown[simplified])
  have p: "(31::nat) \<le> 31" "(31::nat) < 64" by simp_all
  have n: "length (fst (([h], []) :: (u64 list list) message)) = length [2 ^ 31 + 7 :: u64]"
    by simp
  have v: "vpush stack_prim (hd, t) (Array [x]) f q = (hd, [x] # t)" if "length hd = 1"
    for hd t x f q
    using that by (simp add: stack_prim_def)
  note a = Benford64_push_pop[where xs = "[2 ^ 31 + 7]" and m = "([h], [])",
      OF lifo_stack_prim[of 31] p n, unfolded list.map f]
  have "Benford64_push stack_prim ([h], []) (Array [2 ^ 31 + 7]) =
      Inr (vpush stack_prim (vpush stack_prim (vpush stack_prim ([h], [])
             (Array [7]) (Scalar 1) (Scalar 31)) (Array [0]) (Scalar 1) (Array [0]))
             (Array [0]) (Scalar 1) (Scalar 5))"
    by (rule a[THEN conjunct1]) (rule r)
  then show ?thesis by (simp only: v[of "[h]", simplified])
qed



lemma fold_step_push:
  "push (fold_codec stack_prim 1) ([2 ^ 31 + 5], []) (Array [2 ^ 31 + 7]) =
     Inr ([2 ^ 31 + 5], [[0], [0], [7]])"
  by (simp only: fold_codec_def substack_def codec.simps substack_push_def prod.case
      view_slice_1 sum.case Benford64_def Benford64_push_grown) simp

lemma fold_step_push_two:
  "push (fold_codec stack_prim 1) (take (nat 1) [2 ^ 31 + 5, 2 ^ 31 + 7], [])
       (Array (drop (nat 1) [2 ^ 31 + 5, 2 ^ 31 + 7])) =
     Inr ([2 ^ 31 + 5], [[0], [0], [7]])"
  using fold_step_push by simp


end
